theory Spec2Isabelle
  imports Main "HOL-Library.Word"
begin

section \<open>Errors raised by the extension module\<close>

text \<open>
  Every failure of \<^verbatim>\<open>_tdbus.c\<close> is a \<^verbatim>\<open>tdbus.Error\<close> carrying a message, an
  exception raised by the Python runtime, or a \<^verbatim>\<open>NULL\<close>/\<^verbatim>\<open>0\<close> return with no exception
  set. One constructor per message of the source.
\<close>

datatype error =
    ExpectingInteger char          \<comment> \<open>expecting integer argument for `%c' format\<close>
  | ValueOutOfRange char           \<comment> \<open>value out of range for `%c' format\<close>
  | UnbalancedFormat char          \<comment> \<open>unbalanced `%c' format\<close>
  | ExpectingStr char              \<comment> \<open>expecting str for `%c' format\<close>
  | InvalidObjectPath              \<comment> \<open>invalid object path argument\<close>
  | InvalidSignature               \<comment> \<open>invalid signature\<close>
  | ExpectingStrOrUnicode char     \<comment> \<open>expecting str or unicode for '%c' format\<close>
  | ExpectingSequenceStruct        \<comment> \<open>expecting sequence argument for struct format\<close>
  | ExpectingStrByteArray          \<comment> \<open>expecting str argument for array of byte\<close>
  | ExpectingDict                  \<comment> \<open>expecting dict argument for array of dict_entry\<close>
  | ExpectingSequenceArray         \<comment> \<open>expecting sequence argument for array format\<close>
  | ExpectingSequenceDictEntry     \<comment> \<open>expecting sequence argument for dict_entry format\<close>
  | VariantNotPair                 \<comment> \<open>expecting a sequence argument of length 2 for variant\<close>
  | VariantTypeNotString           \<comment> \<open>first item in sequence argument must be string\<close>
  | InvalidVariantSignature        \<comment> \<open>invalid signature for variant\<close>
  | VariantNotOneType              \<comment> \<open>variant signature must be exactly one full type\<close>
  | UnknownFormat char             \<comment> \<open>unknown format character `%c'\<close>
  | TooFewArguments                \<comment> \<open>too few arguments for format string\<close>
  | TooManyArguments               \<comment> \<open>too many arguments for format string\<close>
  | ExpectingSequenceArguments     \<comment> \<open>expecting a sequence for the arguments\<close>
  | IllegalSignature               \<comment> \<open>illegal signature\<close>
  | IllegalDictEntry               \<comment> \<open>illegal dict_entry\<close>
  | AssertionFailed                \<comment> \<open>the \<^verbatim>\<open>ASSERT\<close> macro\<close>
  | PythonError                    \<comment> \<open>an exception set by a Python API call\<close>
  | NoException                    \<comment> \<open>\<^verbatim>\<open>NULL\<close> or \<^verbatim>\<open>0\<close> returned with no exception set\<close>

section \<open>Signature scanning\<close>

text \<open>
  A C string is modelled by the list of its characters before the terminating NUL;
  a \<^verbatim>\<open>char *\<close> into it is the suffix that starts there, so the empty list is a
  pointer at the terminator. A function returning \<^verbatim>\<open>NULL\<close> returns \<open>Inl\<close>.

  \<open>scan_container\<close> is the loop
  \<^verbatim>\<open>while (*++end != '\000' && depth > 0)\<close> of \<^verbatim>\<open>_tdbus_get_one_full_type\<close>:
  its argument is the string at \<^verbatim>\<open>end + 1\<close>, its result the final \<^verbatim>\<open>end\<close>.
\<close>

fun scan_container :: "char \<Rightarrow> char \<Rightarrow> nat \<Rightarrow> string \<Rightarrow> error + string" where
  "scan_container opn cls depth [] =
     (if depth \<noteq> 0 then Inl (UnbalancedFormat opn) else Inr [])"
| "scan_container opn cls depth (c # cs) =
     (if depth > 0
      then scan_container opn cls
             (if c = opn then depth + 1 else if c = cls then depth - 1 else depth) cs
      else Inr (c # cs))"

fun get_one_full_type :: "string \<Rightarrow> error + string" where
  "get_one_full_type [] = Inl NoException"
| "get_one_full_type (c # cs) =
     (if c = CHR ''a'' then get_one_full_type cs
      else if c = CHR ''('' then scan_container (CHR ''('') (CHR '')'') 1 cs
      else if c = CHR ''{'' then scan_container (CHR ''{'') (CHR ''}'') 1 cs
      else Inr cs)"

lemma scan_container_length:
  "scan_container opn cls d s = Inr r \<Longrightarrow> length r \<le> length s"
  by (induction opn cls d s rule: scan_container.induct) (auto split: if_splits)

lemma get_one_full_type_length:
  "get_one_full_type s = Inr r \<Longrightarrow> length r < length s"
proof (induction s rule: get_one_full_type.induct)
  case 1
  then show ?case by simp
next
  case (2 c cs)
  then show ?case
    by (auto split: if_splits dest: scan_container_length)
qed

text \<open>
  \<^verbatim>\<open>_tdbus_check_signature\<close>. The loop state is the cursor \<^verbatim>\<open>format\<close> (the
  remaining string, and \<open>pos\<close>, its offset from \<^verbatim>\<open>start\<close>) and \<open>endoff\<close>, the
  value of \<^verbatim>\<open>end - start\<close>. The local \<^verbatim>\<open>end\<close> is declared without an initialiser:
  \<open>u\<close> is the offset from \<^verbatim>\<open>start\<close> of whatever it holds before its first
  assignment. The source cuts the string at \<^verbatim>\<open>end\<close> before it recurses on
  \<^verbatim>\<open>format+1\<close>; the model passes that substring.
\<close>

definition closer_skip :: "string \<Rightarrow> nat" where
  "closer_skip rest =
     (case rest of [] \<Rightarrow> 0 | r # rs \<Rightarrow> if r = CHR '')'' \<or> r = CHR ''}'' then 1 else 0)"

function check_signature_from :: "int \<Rightarrow> int \<Rightarrow> nat \<Rightarrow> string \<Rightarrow> nat \<Rightarrow> nat \<Rightarrow> bool" where
  "check_signature_from u endoff pos [] arraydepth structdepth = (\<not> endoff > 255)"
| "check_signature_from u endoff pos (c # cs) arraydepth structdepth =
     (case get_one_full_type (c # cs) of
        Inl e \<Rightarrow> False
      | Inr rest \<Rightarrow>
          (if (if length (c # cs) - length rest = 1
               then c \<in> set ''ybnqiuxtdsogvh''
               else if c = CHR ''a''
                 then \<not> arraydepth \<ge> 32 \<and>
                      check_signature_from u u 0
                        (take (length (c # cs) - length rest - 1) cs)
                        (arraydepth + 1) structdepth
               else if c = CHR ''('' \<or> c = CHR ''{''
                 then \<not> structdepth \<ge> 32 \<and>
                      check_signature_from u u 0
                        (take (length (c # cs) - length rest - 1) cs)
                        arraydepth (structdepth + 1)
               else check_signature_from u u 0
                      (take (length (c # cs) - length rest - 1) cs)
                      arraydepth structdepth)
           then check_signature_from u
                  (int (pos + (length (c # cs) - length rest)))
                  (pos + (length (c # cs) - length rest) + closer_skip rest)
                  (drop (closer_skip rest) rest) arraydepth structdepth
           else False))"
  by pat_completeness auto
termination
  by (relation "measure (\<lambda>(u, endoff, pos, format, ad, sd). length format)")
     (auto simp del: get_one_full_type.simps dest!: get_one_full_type_length)

definition check_signature :: "int \<Rightarrow> string \<Rightarrow> nat \<Rightarrow> nat \<Rightarrow> bool" where
  "check_signature u format arraydepth structdepth =
     check_signature_from u u 0 format arraydepth structdepth"

text \<open>
  Only the empty signature lets the validator read the uninitialised \<^verbatim>\<open>end\<close>: on any
  other string its result does not depend on \<open>u\<close>.
\<close>

lemma check_signature_from_indep:
  "format \<noteq> [] \<Longrightarrow>
   check_signature_from u e pos format ad sd = check_signature_from u' e' pos format ad sd"
proof (induction "length format" arbitrary: format u e u' e' pos ad sd rule: less_induct)
  case less
  then obtain c cs where f: "format = c # cs" by (cases format) auto
  show ?case
  proof (cases "get_one_full_type (c # cs)")
    case (Inl a)
    then show ?thesis using f by (simp del: get_one_full_type.simps)
  next
    case (Inr rest)
    let ?n = "length (c # cs) - length rest"
    let ?sub = "take (?n - 1) cs"
    let ?next = "drop (closer_skip rest) rest"
    from get_one_full_type_length [OF Inr] have n: "0 < ?n" "length rest \<le> length cs"
      by simp_all
    have sub: "check_signature_from u u 0 ?sub ad1 sd1 = check_signature_from u' u' 0 ?sub ad1 sd1"
      if "?n \<noteq> 1" for ad1 sd1
    proof -
      have "?sub \<noteq> []" using that n by auto
      moreover have "length ?sub < length format" using f by simp
      ultimately show ?thesis using less.hyps by blast
    qed
    have cont: "check_signature_from u e1 p1 ?next ad sd = check_signature_from u' e1 p1 ?next ad sd"
      for e1 p1
    proof (cases "?next = []")
      case True
      then show ?thesis by simp
    next
      case False
      moreover have "length ?next < length format" using f n by simp
      ultimately show ?thesis using less.hyps by blast
    qed
    show ?thesis
      unfolding f using Inr sub cont
      by (simp del: get_one_full_type.simps add: ac_simps)
  qed
qed

section \<open>Type descriptors and their signature strings\<close>

text \<open>
  The grammar of signatures, as trees: a single type code, an array of one element type,
  and a parenthesised (struct) or braced (dict-entry) group of member types. \<open>render\<close>
  writes a tree as its signature string.
\<close>

datatype descr = Basic char | Array descr | Struct "descr list" | DictEntry "descr list"

fun render :: "descr \<Rightarrow> string" where
  "render (Basic c) = [c]"
| "render (Array t) = CHR ''a'' # render t"
| "render (Struct ts) = CHR ''('' # concat (map render ts) @ '')''"
| "render (DictEntry ts) = CHR ''{'' # concat (map render ts) @ ''}''"

definition render_seq :: "descr list \<Rightarrow> string" where
  "render_seq ts = concat (map render ts)"

text \<open>
  \<open>plain\<close> says that no single-character type of a descriptor is one of the five
  structural characters, so that the descriptor can be read back from its string.
  \<open>well_typed\<close> is the well-formedness the validator asks for: every single-character
  type is in its alphabet and no group is empty. \<open>array_depth\<close> is the largest number
  of arrays, \<open>struct_depth\<close> the largest number of structs and dict-entries, met on a
  path from the root of a descriptor to a leaf.
\<close>

fun list_max :: "nat list \<Rightarrow> nat" where
  "list_max [] = 0"
| "list_max (x # xs) = max x (list_max xs)"

fun plain :: "descr \<Rightarrow> bool" where
  "plain (Basic c) = (c \<notin> set ''a(){}'')"
| "plain (Array t) = plain t"
| "plain (Struct ts) = (\<forall>t \<in> set ts. plain t)"
| "plain (DictEntry ts) = (\<forall>t \<in> set ts. plain t)"

fun well_typed :: "descr \<Rightarrow> bool" where
  "well_typed (Basic c) = (c \<in> set ''ybnqiuxtdsogvh'')"
| "well_typed (Array t) = well_typed t"
| "well_typed (Struct ts) = (ts \<noteq> [] \<and> (\<forall>t \<in> set ts. well_typed t))"
| "well_typed (DictEntry ts) = (ts \<noteq> [] \<and> (\<forall>t \<in> set ts. well_typed t))"

fun array_depth :: "descr \<Rightarrow> nat" where
  "array_depth (Basic c) = 0"
| "array_depth (Array t) = Suc (array_depth t)"
| "array_depth (Struct ts) = list_max (map array_depth ts)"
| "array_depth (DictEntry ts) = list_max (map array_depth ts)"

fun struct_depth :: "descr \<Rightarrow> nat" where
  "struct_depth (Basic c) = 0"
| "struct_depth (Array t) = struct_depth t"
| "struct_depth (Struct ts) = Suc (list_max (map struct_depth ts))"
| "struct_depth (DictEntry ts) = Suc (list_max (map struct_depth ts))"

text \<open>
  \<open>within ad sd t\<close>: the descriptor is well-formed and fits the two depth limits
  when met at array depth \<open>ad\<close> and struct depth \<open>sd\<close>. \<open>nested_check\<close> is the test
  that one iteration of the validator's loop makes on the complete type it has cut off.
\<close>

definition within :: "nat \<Rightarrow> nat \<Rightarrow> descr \<Rightarrow> bool" where
  "within ad sd t \<longleftrightarrow> well_typed t \<and> ad + array_depth t \<le> 32 \<and> sd + struct_depth t \<le> 32"

fun nested_check :: "int \<Rightarrow> nat \<Rightarrow> nat \<Rightarrow> descr \<Rightarrow> bool" where
  "nested_check u ad sd (Basic c) = (c \<in> set ''ybnqiuxtdsogvh'')"
| "nested_check u ad sd (Array t) =
     (ad < 32 \<and> check_signature_from u u 0 (render t) (Suc ad) sd)"
| "nested_check u ad sd (Struct ts) =
     (sd < 32 \<and> check_signature_from u u 0 (concat (map render ts) @ '')'') ad (Suc sd))"
| "nested_check u ad sd (DictEntry ts) =
     (sd < 32 \<and> check_signature_from u u 0 (concat (map render ts) @ ''}'') ad (Suc sd))"

text \<open>
  \<open>as_struct\<close> rewrites every dict-entry of a descriptor as a struct with the same members.
  \<open>has_unmatched_closer d s\<close> holds when, reading \<open>s\<close> with \<open>d\<close> containers open, a
  closing character is met while none is open.
\<close>

fun has_unmatched_closer :: "nat \<Rightarrow> string \<Rightarrow> bool" where
  "has_unmatched_closer d [] = False"
| "has_unmatched_closer d (c # cs) =
     (if c = CHR ''('' \<or> c = CHR ''{'' then has_unmatched_closer (Suc d) cs
      else if c = CHR '')'' \<or> c = CHR ''}'' then d = 0 \<or> has_unmatched_closer (d - 1) cs
      else has_unmatched_closer d cs)"

fun as_struct :: "descr \<Rightarrow> descr" where
  "as_struct (Basic c) = Basic c"
| "as_struct (Array t) = Array (as_struct t)"
| "as_struct (Struct ts) = Struct (map as_struct ts)"
| "as_struct (DictEntry ts) = Struct (map as_struct ts)"

lemma list_max_le: "a + list_max xs \<le> k \<longleftrightarrow> a \<le> k \<and> (\<forall>x \<in> set xs. a + x \<le> k)"
  by (induction xs) auto

lemma render_nonempty: "render t \<noteq> []"
  by (cases t) auto

lemma scan_render:
  "plain t \<Longrightarrow> (opn, cls) \<in> {(CHR ''('', CHR '')''), (CHR ''{'', CHR ''}'')} \<Longrightarrow>
   scan_container opn cls (Suc d) (render t @ r) = scan_container opn cls (Suc d) r"
proof (induction t arbitrary: d r)
  case (Basic c)
  then show ?case by auto
next
  case (Array t)
  then show ?case by auto
next
  case (Struct ts)
  have seq: "scan_container opn cls (Suc d') (concat (map render ts) @ r') =
             scan_container opn cls (Suc d') r'" for d' r'
    using Struct
  proof (induction ts)
    case Nil
    then show ?case by simp
  next
    case (Cons t ts)
    then show ?case by simp
  qed
  from Struct.prems(2) show ?case
    using seq [of "Suc d" "CHR '')'' # r"] seq [of d "CHR '')'' # r"] by auto
next
  case (DictEntry ts)
  have seq: "scan_container opn cls (Suc d') (concat (map render ts) @ r') =
             scan_container opn cls (Suc d') r'" for d' r'
    using DictEntry
  proof (induction ts)
    case Nil
    then show ?case by simp
  next
    case (Cons t ts)
    then show ?case by simp
  qed
  from DictEntry.prems(2) show ?case
    using seq [of "Suc d" "CHR ''}'' # r"] seq [of d "CHR ''}'' # r"] by auto
qed

lemma scan_render_seq:
  "\<forall>t \<in> set ts. plain t \<Longrightarrow> (opn, cls) \<in> {(CHR ''('', CHR '')''), (CHR ''{'', CHR ''}'')} \<Longrightarrow>
   scan_container opn cls (Suc d) (concat (map render ts) @ r) = scan_container opn cls (Suc d) r"
  by (induction ts) (simp_all add: scan_render)

lemma scan_zero: "scan_container opn cls 0 r = Inr r"
  by (cases r) auto

lemma get_one_full_type_render:
  "plain t \<Longrightarrow> get_one_full_type (render t @ rest) = Inr rest"
proof (induction t)
  case (Struct ts)
  then show ?case
    using scan_render_seq [of ts "CHR ''(''" "CHR '')''" 0 "CHR '')'' # rest"]
    by (simp add: scan_zero)
next
  case (DictEntry ts)
  then show ?case
    using scan_render_seq [of ts "CHR ''{''" "CHR ''}''" 0 "CHR ''}'' # rest"]
    by (simp add: scan_zero)
qed auto

lemma check_signature_from_step:
  assumes "plain t"
  shows "check_signature_from u e pos (render t @ rest) ad sd \<longleftrightarrow>
         nested_check u ad sd t \<and>
         check_signature_from u (int (pos + length (render t)))
           (pos + length (render t) + closer_skip rest) (drop (closer_skip rest) rest) ad sd"
proof (cases t)
  case (Basic c)
  with assms show ?thesis by auto
next
  case (Array t1)
  have "get_one_full_type (CHR ''a'' # render t1 @ rest) = Inr rest"
    using get_one_full_type_render [OF assms, of rest] Array by simp
  then show ?thesis
    using Array render_nonempty [of t1]
    by (auto simp del: get_one_full_type.simps simp add: not_le)
next
  case (Struct ts)
  have "get_one_full_type (CHR ''('' # concat (map render ts) @ CHR '')'' # rest) = Inr rest"
    using get_one_full_type_render [OF assms, of rest] Struct by simp
  then show ?thesis
    using Struct
    by (auto simp del: get_one_full_type.simps simp add: not_le)
next
  case (DictEntry ts)
  have "get_one_full_type (CHR ''{'' # concat (map render ts) @ CHR ''}'' # rest) = Inr rest"
    using get_one_full_type_render [OF assms, of rest] DictEntry by simp
  then show ?thesis
    using DictEntry
    by (auto simp del: get_one_full_type.simps simp add: not_le)
qed

lemma closer_skip_render: "plain t \<Longrightarrow> closer_skip (render t @ r) = 0"
  by (cases t) (auto simp: closer_skip_def)

lemma closer_skip_seq:
  "\<forall>t \<in> set ts. plain t \<Longrightarrow> ts \<noteq> [] \<Longrightarrow> closer_skip (concat (map render ts) @ r) = 0"
  by (cases ts) (simp_all add: closer_skip_render)

lemma check_signature_from_closer:
  "c = CHR '')'' \<or> c = CHR ''}'' \<Longrightarrow> \<not> check_signature_from u e pos [c] ad sd"
  by auto

lemma check_signature_from_seq:
  assumes "\<forall>t \<in> set ts. plain t" and "ts \<noteq> []"
    and "tail = [] \<or> tail = '')'' \<or> tail = ''}''"
    and "ad \<le> 32" and "sd \<le> 32"
  shows "check_signature_from u e pos (concat (map render ts) @ tail) ad sd \<longleftrightarrow>
         (\<forall>t \<in> set ts. within ad sd t) \<and> pos + length (concat (map render ts)) \<le> 255"
  using assms
proof (induction "size_list size ts" arbitrary: ts tail e pos ad sd rule: less_induct)
  case less
  obtain t ts' where ts: "ts = t # ts'"
    using less.prems(2) by (cases ts) auto
  have pt: "plain t" and pts: "\<forall>t \<in> set ts'. plain t"
    using less.prems(1) ts by auto
  let ?n = "length (render t)"
  let ?rest = "concat (map render ts') @ tail"
  have step: "check_signature_from u e pos (concat (map render ts) @ tail) ad sd \<longleftrightarrow>
      nested_check u ad sd t \<and>
      check_signature_from u (int (pos + ?n)) (pos + ?n + closer_skip ?rest)
        (drop (closer_skip ?rest) ?rest) ad sd"
    using check_signature_from_step [OF pt, of u e pos ?rest ad sd] ts by simp
  have nested: "nested_check u ad sd t \<and> ?n \<le> 255 \<longleftrightarrow> within ad sd t \<and> ?n \<le> 255"
  proof (cases t)
    case (Basic c)
    then show ?thesis using less.prems(4,5) by (simp add: within_def)
  next
    case (Array t1)
    have "check_signature_from u u 0 (concat (map render [t1]) @ []) (Suc ad) sd \<longleftrightarrow>
          (\<forall>t \<in> set [t1]. within (Suc ad) sd t) \<and> 0 + length (concat (map render [t1])) \<le> 255"
      if "ad < 32"
      using that pt Array ts less.prems(5)
      by (intro less.hyps) simp_all
    then show ?thesis using Array by (auto simp: within_def)
  next
    case (Struct ts1)
    show ?thesis
    proof (cases "ts1 = []")
      case True
      then show ?thesis using Struct by (simp add: within_def)
    next
      case False
      have "check_signature_from u u 0 (concat (map render ts1) @ '')'') ad (Suc sd) \<longleftrightarrow>
            (\<forall>t \<in> set ts1. within ad (Suc sd) t) \<and> 0 + length (concat (map render ts1)) \<le> 255"
        if "sd < 32"
        using that pt Struct ts less.prems(4) False
        by (intro less.hyps) simp_all
      then show ?thesis using Struct False less.prems(4)
        by (auto simp: within_def list_max_le)
    qed
  next
    case (DictEntry ts1)
    show ?thesis
    proof (cases "ts1 = []")
      case True
      then show ?thesis using DictEntry by (simp add: within_def)
    next
      case False
      have "check_signature_from u u 0 (concat (map render ts1) @ ''}'') ad (Suc sd) \<longleftrightarrow>
            (\<forall>t \<in> set ts1. within ad (Suc sd) t) \<and> 0 + length (concat (map render ts1)) \<le> 255"
        if "sd < 32"
        using that pt DictEntry ts less.prems(4) False
        by (intro less.hyps) simp_all
      then show ?thesis using DictEntry False less.prems(4)
        by (auto simp: within_def list_max_le)
    qed
  qed
  have cont: "check_signature_from u (int (pos + ?n)) (pos + ?n + closer_skip ?rest)
        (drop (closer_skip ?rest) ?rest) ad sd \<longleftrightarrow>
      (\<forall>t \<in> set ts'. within ad sd t) \<and> pos + ?n + length (concat (map render ts')) \<le> 255"
  proof (cases "ts' = []")
    case True
    then show ?thesis using less.prems(3) by (auto simp: closer_skip_def)
  next
    case False
    have skip: "closer_skip ?rest = 0"
      using closer_skip_seq [OF pts False] by simp
    have "check_signature_from u (int (pos + ?n)) (pos + ?n)
            (concat (map render ts') @ tail) ad sd \<longleftrightarrow>
          (\<forall>t \<in> set ts'. within ad sd t) \<and> pos + ?n + length (concat (map render ts')) \<le> 255"
      using pts False less.prems(3,4,5) ts
      by (intro less.hyps) simp_all
    then show ?thesis using skip by simp
  qed
  show ?case
    unfolding step cont using nested ts by auto
qed

lemma check_signature_render_seq:
  assumes "\<forall>t \<in> set ts. plain t" and "ts \<noteq> []" and "ad \<le> 32" and "sd \<le> 32"
  shows "check_signature u (render_seq ts) ad sd \<longleftrightarrow>
         (\<forall>t \<in> set ts. within ad sd t) \<and> length (render_seq ts) \<le> 255"
  using check_signature_from_seq [OF assms(1,2) _ assms(3,4), of "[]" u u 0]
  by (simp add: check_signature_def render_seq_def)

lemma as_struct_plain: "plain (as_struct t) = plain t"
  by (induction t) auto

lemma as_struct_well_typed: "well_typed (as_struct t) = well_typed t"
  by (induction t) auto

lemma as_struct_array_depth: "array_depth (as_struct t) = array_depth t"
  by (induction t) (auto simp: comp_def cong: map_cong)

lemma as_struct_struct_depth: "struct_depth (as_struct t) = struct_depth t"
  by (induction t) (auto simp: comp_def cong: map_cong)

lemma as_struct_length: "length (render (as_struct t)) = length (render t)"
  by (induction t) (auto simp: comp_def length_concat cong: map_cong)

lemma as_struct_within: "within ad sd (as_struct t) = within ad sd t"
  by (simp add: within_def as_struct_well_typed as_struct_array_depth as_struct_struct_depth)

lemma as_struct_length_seq: "length (render_seq (map as_struct ts)) = length (render_seq ts)"
  by (induction ts) (simp_all add: render_seq_def as_struct_length)

lemma scan_container_shorter:
  "scan_container opn cls (Suc d) s = Inr r \<Longrightarrow> length r < length s"
  by (cases s) (auto dest: scan_container_length split: if_splits)

lemma check_signature_array_limit:
  assumes "32 \<le> ad"
  shows "\<not> check_signature_from u e pos (CHR ''a'' # s) ad sd"
proof (cases "get_one_full_type (CHR ''a'' # s)")
  case (Inl a)
  then show ?thesis by (simp del: get_one_full_type.simps)
next
  case (Inr rest)
  from get_one_full_type_length [OF this] have "length rest \<le> length s" by simp
  moreover from Inr have "get_one_full_type s = Inr rest" by simp
  from get_one_full_type_length [OF this] have "length rest < length s" .
  ultimately show ?thesis using Inr assms
    by (simp del: get_one_full_type.simps)
qed

lemma check_signature_struct_limit:
  assumes "32 \<le> sd" and "c = CHR ''('' \<or> c = CHR ''{''"
  shows "\<not> check_signature_from u e pos (c # s) ad sd"
proof (cases "get_one_full_type (c # s)")
  case (Inl a)
  then show ?thesis by (simp del: get_one_full_type.simps)
next
  case (Inr rest)
  with assms(2) have "length rest < length s"
    by (auto dest: scan_container_shorter)
  then show ?thesis using Inr assms
    by (auto simp del: get_one_full_type.simps)
qed

lemma render_arrays: "render ((Array ^^ n) t) = replicate n (CHR ''a'') @ render t"
  by (induction n) simp_all

lemma plain_arrays: "plain ((Array ^^ n) t) = plain t"
  by (induction n) simp_all

lemma well_typed_arrays: "well_typed ((Array ^^ n) t) = well_typed t"
  by (induction n) simp_all

lemma array_depth_arrays: "array_depth ((Array ^^ n) t) = n + array_depth t"
  by (induction n) simp_all

lemma struct_depth_arrays: "struct_depth ((Array ^^ n) t) = struct_depth t"
  by (induction n) simp_all

lemma check_signature_arrays:
  "check_signature u (replicate n (CHR ''a'') @ ''i'') 0 0 \<longleftrightarrow> n \<le> 32"
  using check_signature_render_seq [of "[(Array ^^ n) (Basic (CHR ''i''))]" 0 0 u]
  by (auto simp: render_seq_def render_arrays plain_arrays within_def well_typed_arrays
      array_depth_arrays struct_depth_arrays)

lemma well_typed_plain: "well_typed t \<Longrightarrow> plain t"
  by (induction t) auto

lemma render_seq_basics: "render_seq (replicate n (Basic c)) = replicate n c"
  by (induction n) (simp_all add: render_seq_def)

lemma check_signature_too_long: "\<not> check_signature u (replicate 256 (CHR ''i'')) 0 0"
  using check_signature_render_seq [of "replicate 256 (Basic (CHR ''i''))" 0 0 u]
  by (simp add: render_seq_basics)

lemma render_nest:
  "render (((\<lambda>t. Array (Struct [t])) ^^ n) t) =
     concat (replicate n ''a('') @ render t @ replicate n (CHR '')'')"
  by (induction n) (simp_all add: replicate_append_same)

lemma plain_nest: "plain (((\<lambda>t. Array (Struct [t])) ^^ n) t) = plain t"
  by (induction n) simp_all

lemma well_typed_nest: "well_typed (((\<lambda>t. Array (Struct [t])) ^^ n) t) = well_typed t"
  by (induction n) simp_all

lemma array_depth_nest: "array_depth (((\<lambda>t. Array (Struct [t])) ^^ n) t) = n + array_depth t"
  by (induction n) simp_all

lemma struct_depth_nest: "struct_depth (((\<lambda>t. Array (Struct [t])) ^^ n) t) = n + struct_depth t"
  by (induction n) simp_all

lemma check_signature_nest:
  "check_signature u (concat (replicate 32 ''a('') @ ''i'' @ replicate 32 (CHR '')'')) 0 0"
  using check_signature_render_seq
    [of "[((\<lambda>t. Array (Struct [t])) ^^ 32) (Basic (CHR ''i''))]" 0 0 u]
  by (simp add: render_seq_def render_nest plain_nest within_def well_typed_nest
      array_depth_nest struct_depth_nest length_concat sum_list_replicate)

subsection \<open>What the validator accepts\<close>

text \<open>
  Claim C2, as the code has it. For a non-empty sequence of complete types (a single
  character that is not one of \<^verbatim>\<open>a ( ) { }\<close>, an array, or a struct or dict-entry
  group), \<^verbatim>\<open>_tdbus_check_signature\<close> accepts its signature exactly when every
  single-character type is one of \<^verbatim>\<open>ybnqiuxtdsogvh\<close>, no group is empty, arrays
  nest at most 32 deep, groups nest at most 32 deep and the string has at most 255
  characters. It accepts \<^verbatim>\<open>a{sv}\<close>, \<^verbatim>\<open>(ii)\<close>, \<^verbatim>\<open>ai\<close>, \<^verbatim>\<open>s\<close>, \<^verbatim>\<open>v\<close>
  and rejects \<^verbatim>\<open>a\<close> and \<^verbatim>\<open>(ii\<close>.
\<close>

theorem check_signature_grammar:
  assumes "\<forall>t \<in> set ts. plain t" and "ts \<noteq> []"
  shows "(check_signature u (render_seq ts) 0 0 \<longleftrightarrow>
            (\<forall>t \<in> set ts. well_typed t \<and> array_depth t \<le> 32 \<and> struct_depth t \<le> 32) \<and>
            length (render_seq ts) \<le> 255) \<and>
         check_signature u ''a{sv}'' 0 0 \<and> check_signature u ''(ii)'' 0 0 \<and>
         check_signature u ''ai'' 0 0 \<and> check_signature u ''s'' 0 0 \<and>
         check_signature u ''v'' 0 0 \<and>
         \<not> check_signature u ''a'' 0 0 \<and> \<not> check_signature u ''(ii'' 0 0"
proof -
  have "check_signature u (render_seq ts) 0 0 \<longleftrightarrow>
          (\<forall>t \<in> set ts. well_typed t \<and> array_depth t \<le> 32 \<and> struct_depth t \<le> 32) \<and>
          length (render_seq ts) \<le> 255"
    using check_signature_render_seq [OF assms, of 0 0 u] by (simp add: within_def)
  moreover have "check_signature u ''a{sv}'' 0 0" "check_signature u ''(ii)'' 0 0"
    "check_signature u ''ai'' 0 0" "check_signature u ''s'' 0 0" "check_signature u ''v'' 0 0"
    "\<not> check_signature u ''a'' 0 0" "\<not> check_signature u ''(ii'' 0 0"
    by (simp_all add: check_signature_def closer_skip_def)
  ultimately show ?thesis by blast
qed

theorem check_signature_grammar_witness:
  "check_signature 0 (render_seq [Array (DictEntry [Basic (CHR ''s''), Basic (CHR ''v'')]),
                                  Struct [Basic (CHR ''i''), Basic (CHR ''i'')]]) 0 0 \<and>
   \<not> check_signature 0 (render_seq [Basic (CHR ''z'')]) 0 0"
  using check_signature_grammar
          [of "[Array (DictEntry [Basic (CHR ''s''), Basic (CHR ''v'')]),
                Struct [Basic (CHR ''i''), Basic (CHR ''i'')]]" 0]
        check_signature_grammar [of "[Basic (CHR ''z'')]" 0]
  by (simp add: render_seq_def)

text \<open>
  The claim as written fails: a closing character that follows a complete type is
  skipped wherever it stands, so \<^verbatim>\<open>i)\<close> is accepted; the code \<^verbatim>\<open>h\<close> is in the
  accepted alphabet; a run of 256 valid codes is rejected.
\<close>

theorem check_signature_grammar_counterexample:
  "check_signature 0 ''i)'' 0 0 \<and> has_unmatched_closer 0 ''i)'' \<and>
   check_signature 0 ''h'' 0 0 \<and>
   \<not> check_signature 0 (replicate 256 (CHR ''i'')) 0 0"
proof -
  have "check_signature 0 ''i)'' 0 0" "has_unmatched_closer 0 ''i)''" "check_signature 0 ''h'' 0 0"
    by (simp_all add: check_signature_def closer_skip_def)
  then show ?thesis using check_signature_too_long [of 0] by blast
qed

subsection \<open>Dict-entries\<close>

text \<open>
  Claim C3, as the code has it. The validator has no rule of its own for dict-entries:
  a signature is accepted exactly when the signature with every dict-entry rewritten as a
  struct is. An empty or unterminated dict-entry is rejected, as a struct would be.
\<close>

theorem check_signature_dict_entry_as_struct:
  assumes "\<forall>t \<in> set ts. plain t" and "ts \<noteq> []"
  shows "(check_signature u (render_seq ts) 0 0 \<longleftrightarrow>
          check_signature u (render_seq (map as_struct ts)) 0 0) \<and>
         \<not> check_signature u ''a{}'' 0 0 \<and> \<not> check_signature u ''a{sv'' 0 0"
proof -
  have "\<forall>t \<in> set (map as_struct ts). plain t" "map as_struct ts \<noteq> []"
    using assms by (simp_all add: as_struct_plain)
  from check_signature_render_seq [OF this, of 0 0 u] check_signature_render_seq [OF assms, of 0 0 u]
  have "check_signature u (render_seq ts) 0 0 \<longleftrightarrow>
        check_signature u (render_seq (map as_struct ts)) 0 0"
    by (simp add: as_struct_within as_struct_length_seq)
  moreover have "\<not> check_signature u ''a{}'' 0 0" "\<not> check_signature u ''a{sv'' 0 0"
    by (simp_all add: check_signature_def closer_skip_def)
  ultimately show ?thesis by blast
qed

theorem check_signature_dict_entry_as_struct_witness:
  "check_signature 0 (render_seq [DictEntry [Basic (CHR ''s''), Basic (CHR ''s''), Basic (CHR ''s'')]]) 0 0
   = check_signature 0 ''(sss)'' 0 0"
  using check_signature_dict_entry_as_struct
          [of "[DictEntry [Basic (CHR ''s''), Basic (CHR ''s''), Basic (CHR ''s'')]]" 0]
  by (simp add: render_seq_def)

text \<open>
  The claim as written fails: a dict-entry outside any array, with one member, with three
  members, or with a struct as its key is accepted.
\<close>

theorem check_signature_dict_entry_counterexample:
  "check_signature 0 ''{sv}'' 0 0 \<and> check_signature 0 ''a{s}'' 0 0 \<and>
   check_signature 0 ''a{sss}'' 0 0 \<and> check_signature 0 ''a{(i)s}'' 0 0"
  by (simp add: check_signature_def closer_skip_def)

subsection \<open>Nesting depth\<close>

text \<open>
  Claim C6. Called with array depth \<open>ad\<close> and struct depth \<open>sd\<close>, the validator
  accepts a sequence of well-formed types of at most 255 characters exactly when, for
  each of them, \<open>ad\<close> plus its array nesting and \<open>sd\<close> plus its struct and dict-entry
  nesting are both at most 32: arrays count only towards the first, structs and
  dict-entries only towards the second. An array met at array depth 32 or more, and a
  struct or dict-entry met at struct depth 32 or more, is rejected. So 32 nested arrays
  are accepted, 33 are rejected, and 32 arrays alternating with 32 structs are accepted.
\<close>

theorem check_signature_depth_counters:
  assumes "\<forall>t \<in> set ts. well_typed t" and "ts \<noteq> []" and "length (render_seq ts) \<le> 255"
    and "ad \<le> 32" and "sd \<le> 32"
  shows "(check_signature u (render_seq ts) ad sd \<longleftrightarrow>
            (\<forall>t \<in> set ts. ad + array_depth t \<le> 32 \<and> sd + struct_depth t \<le> 32)) \<and>
         (32 \<le> ad' \<longrightarrow> \<not> check_signature u (CHR ''a'' # s) ad' sd') \<and>
         (32 \<le> sd' \<longrightarrow> \<not> check_signature u (CHR ''('' # s) ad' sd' \<and>
                         \<not> check_signature u (CHR ''{'' # s) ad' sd') \<and>
         check_signature u (replicate 32 (CHR ''a'') @ ''i'') 0 0 \<and>
         \<not> check_signature u (replicate 33 (CHR ''a'') @ ''i'') 0 0 \<and>
         check_signature u (concat (replicate 32 ''a('') @ ''i'' @ replicate 32 (CHR '')'')) 0 0"
proof -
  have "\<forall>t \<in> set ts. plain t"
    using assms(1) by (simp add: well_typed_plain)
  from check_signature_render_seq [OF this assms(2,4,5), of u]
  have "check_signature u (render_seq ts) ad sd \<longleftrightarrow>
          (\<forall>t \<in> set ts. ad + array_depth t \<le> 32 \<and> sd + struct_depth t \<le> 32)"
    using assms(1,3) by (simp add: within_def)
  moreover have "32 \<le> ad' \<longrightarrow> \<not> check_signature u (CHR ''a'' # s) ad' sd'"
    using check_signature_array_limit [of ad' u u 0 s sd']
    by (simp add: check_signature_def del: check_signature_from.simps)
  moreover have "32 \<le> sd' \<longrightarrow> \<not> check_signature u (CHR ''('' # s) ad' sd' \<and>
                         \<not> check_signature u (CHR ''{'' # s) ad' sd'"
    using check_signature_struct_limit [of sd' "CHR ''(''" u u 0 s ad']
      check_signature_struct_limit [of sd' "CHR ''{''" u u 0 s ad']
    by (simp add: check_signature_def del: check_signature_from.simps)
  moreover have "check_signature u (replicate 32 (CHR ''a'') @ ''i'') 0 0"
    "\<not> check_signature u (replicate 33 (CHR ''a'') @ ''i'') 0 0"
    by (simp_all add: check_signature_arrays)
  ultimately show ?thesis using check_signature_nest [of u] by blast
qed

theorem check_signature_depth_counters_witness:
  "check_signature 0 (render_seq [Array (Struct [Array (Basic (CHR ''i''))])]) 30 31 \<and>
   \<not> check_signature 0 (render_seq [Array (Struct [Array (Basic (CHR ''i''))])]) 31 0 \<and>
   \<not> check_signature 0 ''ai'' 32 0"
  using check_signature_depth_counters
          [of "[Array (Struct [Array (Basic (CHR ''i''))])]" 30 31 0 32 "''i''" 0]
        check_signature_depth_counters
          [of "[Array (Struct [Array (Basic (CHR ''i''))])]" 31 0 0 32 "''i''" 0]
  by (simp add: render_seq_def)

section \<open>Identifier validators\<close>

text \<open>
  \<^verbatim>\<open>isalpha\<close> and \<^verbatim>\<open>isalnum\<close> of \<^verbatim>\<open>ctype.h\<close>, in the C locale. The loops of the four
  validators carry the previous character (\<^verbatim>\<open>s[i-1]\<close>) and the rest of the string from
  \<^verbatim>\<open>s[i]\<close>; \<open>cs \<noteq> []\<close> is \<^verbatim>\<open>s[i+1] != '\000'\<close>. \<^verbatim>\<open>DBUS_MAXIMUM_NAME_LENGTH\<close> comes
  from the libdbus headers and is the parameter \<open>maxlen\<close>. \<^verbatim>\<open>_tdbus_check_path\<close> has no
  length test.
\<close>

definition isalpha :: "char \<Rightarrow> bool" where
  "isalpha c \<longleftrightarrow> c \<in> set ''ABCDEFGHIJKLMNOPQRSTUVWXYZabcdefghijklmnopqrstuvwxyz''"

definition isalnum :: "char \<Rightarrow> bool" where
  "isalnum c \<longleftrightarrow> isalpha c \<or> c \<in> set ''0123456789''"

fun check_path_loop :: "char \<Rightarrow> string \<Rightarrow> bool" where
  "check_path_loop prev [] = True"
| "check_path_loop prev (c # cs) =
     (if \<not> (isalnum c \<or> c = CHR ''_'' \<or> (c = CHR ''/'' \<and> prev \<noteq> CHR ''/'' \<and> cs \<noteq> []))
      then False
      else check_path_loop c cs)"

fun check_path :: "string \<Rightarrow> bool" where
  "check_path [] = False"
| "check_path (c # cs) = (if c \<noteq> CHR ''/'' then False else check_path_loop c cs)"

fun check_interface_loop :: "char \<Rightarrow> string \<Rightarrow> nat \<Rightarrow> nat option" where
  "check_interface_loop prev [] ndots = Some ndots"
| "check_interface_loop prev (c # cs) ndots =
     (if \<not> (isalnum c \<or> c = CHR ''_'' \<or> (c = CHR ''.'' \<and> prev \<noteq> CHR ''.'' \<and> cs \<noteq> []))
      then None
      else check_interface_loop c cs (if c = CHR ''.'' then ndots + 1 else ndots))"

fun check_interface :: "nat \<Rightarrow> string \<Rightarrow> bool" where
  "check_interface maxlen [] = False"
| "check_interface maxlen (c # cs) =
     (if \<not> (isalpha c \<or> c = CHR ''_'') then False
      else case check_interface_loop c cs 0 of
             None \<Rightarrow> False
           | Some ndots \<Rightarrow> length (c # cs) \<le> maxlen \<and> ndots > 0)"

fun check_member_loop :: "string \<Rightarrow> bool" where
  "check_member_loop [] = True"
| "check_member_loop (c # cs) =
     (if \<not> (isalnum c \<or> c = CHR ''_'') then False else check_member_loop cs)"

fun check_member :: "nat \<Rightarrow> string \<Rightarrow> bool" where
  "check_member maxlen [] = False"
| "check_member maxlen (c # cs) =
     (if \<not> (isalpha c \<or> c = CHR ''_'') then False
      else if \<not> check_member_loop cs then False
      else length (c # cs) \<le> maxlen)"

fun check_bus_name_loop :: "char \<Rightarrow> string \<Rightarrow> nat \<Rightarrow> nat option" where
  "check_bus_name_loop prev [] ndots = Some ndots"
| "check_bus_name_loop prev (c # cs) ndots =
     (if \<not> (isalnum c \<or> c = CHR ''_'' \<or> c = CHR ''-'' \<or>
             (c = CHR ''.'' \<and> prev \<noteq> CHR ''.'' \<and> cs \<noteq> []))
      then None
      else check_bus_name_loop c cs (if c = CHR ''.'' then ndots + 1 else ndots))"

fun check_bus_name_from :: "nat \<Rightarrow> nat \<Rightarrow> string \<Rightarrow> bool" where
  "check_bus_name_from maxlen i [] = False"
| "check_bus_name_from maxlen i (c # cs) =
     (if \<not> (isalnum c \<or> c = CHR ''_'' \<or> c = CHR ''-'') then False
      else case check_bus_name_loop c cs 0 of
             None \<Rightarrow> False
           | Some ndots \<Rightarrow> i + length (c # cs) \<le> maxlen \<and> ndots > 0)"

fun check_bus_name :: "nat \<Rightarrow> string \<Rightarrow> bool" where
  "check_bus_name maxlen [] = False"
| "check_bus_name maxlen (c # cs) =
     (if c = CHR '':'' then (if cs = [] then False else check_bus_name_from maxlen 1 cs)
      else check_bus_name_from maxlen 0 (c # cs))"

text \<open>
  The object-path grammar in the specification's words: the root \<^verbatim>\<open>/\<close>, or one or
  more segments, each introduced by \<^verbatim>\<open>/\<close>, non-empty and made of alphanumeric
  characters and underscores. \<open>name_chars extra\<close> is the character class of a name:
  alphanumeric or one of \<open>extra\<close>; \<open>name_start\<close> says a name begins with a letter or
  an underscore.
\<close>

definition segment_char :: "char \<Rightarrow> bool" where
  "segment_char c \<longleftrightarrow> isalnum c \<or> c = CHR ''_''"

definition segment_ok :: "string \<Rightarrow> bool" where
  "segment_ok seg \<longleftrightarrow> seg \<noteq> [] \<and> (\<forall>c \<in> set seg. segment_char c)"

definition join_segments :: "string list \<Rightarrow> string" where
  "join_segments segs = concat (map (\<lambda>seg. CHR ''/'' # seg) segs)"

definition path_grammar :: "string \<Rightarrow> bool" where
  "path_grammar s \<longleftrightarrow>
     s = ''/'' \<or> (\<exists>segs. segs \<noteq> [] \<and> (\<forall>seg \<in> set segs. segment_ok seg) \<and> s = join_segments segs)"

definition name_chars :: "string \<Rightarrow> string \<Rightarrow> bool" where
  "name_chars extra s \<longleftrightarrow> (\<forall>c \<in> set s. isalnum c \<or> c \<in> set extra)"

definition name_start :: "string \<Rightarrow> bool" where
  "name_start s \<longleftrightarrow> (case s of [] \<Rightarrow> False | c # cs \<Rightarrow> isalpha c \<or> c = CHR ''_'')"

lemma segment_char_not_slash: "segment_char c \<Longrightarrow> c \<noteq> CHR ''/''"
  by (auto simp: segment_char_def isalnum_def isalpha_def)

lemma check_path_loop_segment:
  "\<forall>c \<in> set seg. segment_char c \<Longrightarrow>
   check_path_loop prev (seg @ rest) = check_path_loop (if seg = [] then prev else last seg) rest"
  by (induction seg arbitrary: prev) (auto simp: segment_char_def)

lemma check_path_loop_join:
  "\<forall>seg \<in> set segs. segment_ok seg \<Longrightarrow> prev \<noteq> CHR ''/'' \<Longrightarrow>
   check_path_loop prev (join_segments segs)"
proof (induction segs arbitrary: prev)
  case Nil
  then show ?case by (simp add: join_segments_def)
next
  case (Cons seg segs)
  then have ok: "seg \<noteq> []" "\<forall>c \<in> set seg. segment_char c"
    by (simp_all add: segment_ok_def)
  then have "last seg \<noteq> CHR ''/''"
    using segment_char_not_slash [of "last seg"] by auto
  then have "check_path_loop (last seg) (join_segments segs)"
    using Cons by simp
  then have "check_path_loop (CHR ''/'') (seg @ join_segments segs)"
    using check_path_loop_segment [OF ok(2), of "CHR ''/''" "join_segments segs"] ok(1) by simp
  then show ?case using Cons.prems(2) ok(1) by (simp add: join_segments_def)
qed

lemma check_path_loop_split:
  "check_path_loop prev cs \<Longrightarrow>
   \<exists>seg0 segs. (\<forall>c \<in> set seg0. segment_char c) \<and> (\<forall>seg \<in> set segs. segment_ok seg) \<and>
     cs = seg0 @ join_segments segs \<and> (prev = CHR ''/'' \<and> cs \<noteq> [] \<longrightarrow> seg0 \<noteq> [])"
proof (induction cs arbitrary: prev)
  case Nil
  have "(\<forall>c \<in> set []. segment_char c) \<and> (\<forall>seg \<in> set []. segment_ok seg) \<and>
        [] = [] @ join_segments [] \<and> (prev = CHR ''/'' \<and> ([]::string) \<noteq> [] \<longrightarrow> ([]::string) \<noteq> [])"
    by (simp add: join_segments_def)
  then show ?case by blast
next
  case (Cons c cs)
  from Cons.prems have step: "segment_char c \<or> (c = CHR ''/'' \<and> prev \<noteq> CHR ''/'' \<and> cs \<noteq> [])"
    and rest: "check_path_loop c cs"
    by (auto simp: segment_char_def split: if_splits)
  from Cons.IH [OF rest] obtain seg0 segs where
    s0: "\<forall>c \<in> set seg0. segment_char c" and ss: "\<forall>seg \<in> set segs. segment_ok seg"
    and cs: "cs = seg0 @ join_segments segs" and ne: "c = CHR ''/'' \<and> cs \<noteq> [] \<longrightarrow> seg0 \<noteq> []"
    by blast
  show ?case
  proof (cases "segment_char c")
    case True
    then have "(\<forall>x \<in> set (c # seg0). segment_char x) \<and> (\<forall>seg \<in> set segs. segment_ok seg) \<and>
        c # cs = (c # seg0) @ join_segments segs \<and>
        (prev = CHR ''/'' \<and> c # cs \<noteq> [] \<longrightarrow> c # seg0 \<noteq> [])"
      using s0 ss cs by simp
    then show ?thesis by blast
  next
    case False
    with step have c: "c = CHR ''/''" "prev \<noteq> CHR ''/''" "cs \<noteq> []" by auto
    with ne have "seg0 \<noteq> []" by simp
    then have "(\<forall>x \<in> set []. segment_char x) \<and> (\<forall>seg \<in> set (seg0 # segs). segment_ok seg) \<and>
        c # cs = [] @ join_segments (seg0 # segs) \<and>
        (prev = CHR ''/'' \<and> c # cs \<noteq> [] \<longrightarrow> ([]::string) \<noteq> [])"
      using s0 ss cs c by (simp add: join_segments_def segment_ok_def)
    then show ?thesis by blast
  qed
qed

lemma check_path_grammar: "check_path s \<longleftrightarrow> path_grammar s"
proof
  assume cp: "check_path s"
  then obtain cs where s: "s = CHR ''/'' # cs" and loop: "check_path_loop (CHR ''/'') cs"
    by (cases s) (auto split: if_splits)
  show "path_grammar s"
  proof (cases "cs = []")
    case True
    then show ?thesis using s by (simp add: path_grammar_def)
  next
    case False
    from check_path_loop_split [OF loop] False obtain seg0 segs where
      "\<forall>c \<in> set seg0. segment_char c" "\<forall>seg \<in> set segs. segment_ok seg"
      "cs = seg0 @ join_segments segs" "seg0 \<noteq> []"
      by blast
    then have "seg0 # segs \<noteq> [] \<and> (\<forall>seg \<in> set (seg0 # segs). segment_ok seg) \<and>
               s = join_segments (seg0 # segs)"
      using s by (simp add: join_segments_def segment_ok_def)
    then show ?thesis unfolding path_grammar_def by blast
  qed
next
  assume "path_grammar s"
  then consider "s = ''/''" |
    segs where "segs \<noteq> []" "\<forall>seg \<in> set segs. segment_ok seg" "s = join_segments segs"
    unfolding path_grammar_def by blast
  then show "check_path s"
  proof cases
    case 1
    then show ?thesis by simp
  next
    case 2
    then obtain seg segs' where segs: "segs = seg # segs'" by (cases segs) auto
    with 2 have ok: "seg \<noteq> []" "\<forall>c \<in> set seg. segment_char c" "\<forall>seg \<in> set segs'. segment_ok seg"
      by (simp_all add: segment_ok_def)
    then have "last seg \<noteq> CHR ''/''"
      using segment_char_not_slash [of "last seg"] by auto
    from check_path_loop_join [OF ok(3) this]
    have "check_path_loop (CHR ''/'') (seg @ join_segments segs')"
      using check_path_loop_segment [OF ok(2), of "CHR ''/''" "join_segments segs'"] ok(1) by simp
    then show ?thesis using 2(3) segs by (simp add: join_segments_def)
  qed
qed

lemma check_interface_loop_chars:
  "check_interface_loop prev cs k = Some m \<Longrightarrow>
   name_chars ''_.'' cs \<and> m = k + count_list cs (CHR ''.'')"
proof (induction cs arbitrary: prev k)
  case Nil
  then show ?case by (simp add: name_chars_def)
next
  case (Cons c cs)
  from Cons.prems have ok: "isalnum c \<or> c = CHR ''_'' \<or> c = CHR ''.''"
    and rest: "check_interface_loop c cs (if c = CHR ''.'' then k + 1 else k) = Some m"
    by (auto split: if_splits)
  from Cons.IH [OF rest] ok show ?case
    by (auto simp: name_chars_def)
qed

lemma check_member_loop_chars: "check_member_loop cs \<Longrightarrow> name_chars ''_'' cs"
  by (induction cs) (auto simp: name_chars_def split: if_splits)

lemma check_bus_name_loop_chars:
  "check_bus_name_loop prev cs k = Some m \<Longrightarrow>
   name_chars ''_-.'' cs \<and> m = k + count_list cs (CHR ''.'')"
proof (induction cs arbitrary: prev k)
  case Nil
  then show ?case by (simp add: name_chars_def)
next
  case (Cons c cs)
  from Cons.prems have ok: "isalnum c \<or> c = CHR ''_'' \<or> c = CHR ''-'' \<or> c = CHR ''.''"
    and rest: "check_bus_name_loop c cs (if c = CHR ''.'' then k + 1 else k) = Some m"
    by (auto split: if_splits)
  from Cons.IH [OF rest] ok show ?case
    by (auto simp: name_chars_def)
qed

lemma check_interface_sound:
  assumes "check_interface maxlen s"
  shows "length s \<le> maxlen \<and> name_start s \<and> name_chars ''_.'' s \<and> CHR ''.'' \<in> set s"
proof -
  from assms obtain c cs m where s: "s = c # cs" and c: "isalpha c \<or> c = CHR ''_''"
    and loop: "check_interface_loop c cs 0 = Some m" and fin: "length s \<le> maxlen" "m > 0"
    by (cases s) (auto split: if_splits option.splits)
  from check_interface_loop_chars [OF loop] fin(2)
  have "name_chars ''_.'' cs" "count_list cs (CHR ''.'') > 0" by simp_all
  then show ?thesis using s c fin(1)
    by (auto simp: name_start_def name_chars_def isalnum_def count_list_0_iff)
qed

lemma check_member_sound:
  assumes "check_member maxlen s"
  shows "length s \<le> maxlen \<and> name_start s \<and> name_chars ''_'' s"
proof -
  from assms obtain c cs where s: "s = c # cs" and c: "isalpha c \<or> c = CHR ''_''"
    and loop: "check_member_loop cs" and fin: "length s \<le> maxlen"
    by (cases s) (auto split: if_splits)
  from check_member_loop_chars [OF loop] show ?thesis using s c fin
    by (auto simp: name_start_def name_chars_def isalnum_def)
qed

lemma check_bus_name_from_sound:
  assumes "check_bus_name_from maxlen i s"
  shows "i + length s \<le> maxlen \<and> name_chars ''_-.'' s \<and> CHR ''.'' \<in> set s"
proof -
  from assms obtain c cs m where s: "s = c # cs"
    and c: "isalnum c \<or> c = CHR ''_'' \<or> c = CHR ''-''"
    and loop: "check_bus_name_loop c cs 0 = Some m" and fin: "i + length s \<le> maxlen" "m > 0"
    by (cases s) (auto split: if_splits option.splits)
  from check_bus_name_loop_chars [OF loop] fin(2)
  have "name_chars ''_-.'' cs" "count_list cs (CHR ''.'') > 0" by simp_all
  then show ?thesis using s c fin(1)
    by (auto simp: name_chars_def count_list_0_iff)
qed

lemma check_bus_name_sound:
  assumes "check_bus_name maxlen s"
  shows "length s \<le> maxlen \<and> CHR ''.'' \<in> set s \<and>
         (name_chars ''_-.'' s \<or> (\<exists>t. s = CHR '':'' # t \<and> name_chars ''_-.'' t))"
proof (cases s)
  case Nil
  with assms show ?thesis by simp
next
  case (Cons c cs)
  show ?thesis
  proof (cases "c = CHR '':''")
    case True
    with assms Cons have "check_bus_name_from maxlen 1 cs"
      by (simp split: if_splits)
    from check_bus_name_from_sound [OF this] show ?thesis using Cons True by auto
  next
    case False
    with assms Cons have "check_bus_name_from maxlen 0 s"
      by (simp split: if_splits)
    from check_bus_name_from_sound [OF this] show ?thesis by auto
  qed
qed

lemma check_path_long: "check_path (CHR ''/'' # replicate (Suc n) (CHR ''a''))"
  using check_path_loop_segment [of "replicate (Suc n) (CHR ''a'')" "CHR ''/''" "[]"]
  by (simp add: segment_char_def isalnum_def isalpha_def)

text \<open>
  Claim C9, as the code has it. The object-path validator accepts exactly the strings of
  the path grammar and enforces no maximum length. The interface, member and bus-name
  validators accept a string only if it is no longer than the maximum name length and
  lies in its character class: an interface name starts with a letter or underscore,
  consists of alphanumerics, underscores and dots and contains a dot; a member name
  starts with a letter or underscore and consists of alphanumerics and underscores; a
  bus name, after an optional leading colon, consists of alphanumerics, underscores,
  hyphens and dots and contains a dot.
\<close>

theorem identifier_validators:
  "(check_path s \<longleftrightarrow> path_grammar s) \<and>
   (check_interface maxlen s \<longrightarrow>
      length s \<le> maxlen \<and> name_start s \<and> name_chars ''_.'' s \<and> CHR ''.'' \<in> set s) \<and>
   (check_member maxlen s \<longrightarrow> length s \<le> maxlen \<and> name_start s \<and> name_chars ''_'' s) \<and>
   (check_bus_name maxlen s \<longrightarrow>
      length s \<le> maxlen \<and> CHR ''.'' \<in> set s \<and>
      (name_chars ''_-.'' s \<or> (\<exists>t. s = CHR '':'' # t \<and> name_chars ''_-.'' t)))"
  using check_path_grammar [of s] check_interface_sound [of maxlen s]
    check_member_sound [of maxlen s] check_bus_name_sound [of maxlen s]
  by blast

theorem identifier_validators_witness:
  "path_grammar ''/org/freedesktop/DBus'' \<and> \<not> path_grammar ''/org//DBus'' \<and>
   \<not> path_grammar ''/org/'' \<and> path_grammar ''/'' \<and>
   name_start ''org.freedesktop.DBus'' \<and> name_chars ''_'' ''Hello'' \<and>
   name_chars ''_-.'' ''1.42''"
proof -
  have "check_path ''/org/freedesktop/DBus''" by code_simp
  then have p1: "path_grammar ''/org/freedesktop/DBus''"
    using identifier_validators [of "''/org/freedesktop/DBus''" 255] by blast
  have "\<not> check_path ''/org//DBus''" by code_simp
  then have p2: "\<not> path_grammar ''/org//DBus''"
    using identifier_validators [of "''/org//DBus''" 255] by blast
  have "\<not> check_path ''/org/''" by code_simp
  then have p3: "\<not> path_grammar ''/org/''"
    using identifier_validators [of "''/org/''" 255] by blast
  have "check_path ''/''" by code_simp
  then have p4: "path_grammar ''/''"
    using identifier_validators [of "''/''" 255] by blast
  have "check_interface 255 ''org.freedesktop.DBus''" by code_simp
  then have p5: "name_start ''org.freedesktop.DBus''"
    using identifier_validators [of "''org.freedesktop.DBus''" 255] by blast
  have "check_member 255 ''Hello''" by code_simp
  then have p5': "name_chars ''_'' ''Hello''"
    using identifier_validators [of "''Hello''" 255] by blast
  have "check_bus_name 255 '':1.42''" by code_simp
  then have "name_chars ''_-.'' '':1.42'' \<or> (\<exists>t. '':1.42'' = CHR '':'' # t \<and> name_chars ''_-.'' t)"
    using identifier_validators [of "'':1.42''" 255] by blast
  moreover have "\<not> name_chars ''_-.'' '':1.42''" by code_simp
  ultimately have p6: "name_chars ''_-.'' ''1.42''" by simp
  from p1 p2 p3 p4 p5 p5' p6 show ?thesis by blast
qed

text \<open>
  The claim as written fails for object paths: a path of 301 characters is accepted,
  where the member validator rejects a name of that length.
\<close>

theorem identifier_validators_counterexample:
  "check_path (CHR ''/'' # replicate 300 (CHR ''a'')) \<and>
   length (CHR ''/'' # replicate 300 (CHR ''a'')) = 301 \<and>
   \<not> check_member 255 (replicate 301 (CHR ''a''))"
proof -
  have "check_path (CHR ''/'' # replicate 300 (CHR ''a''))"
    using check_path_long [of 299] by simp
  moreover have "\<not> check_member 255 (replicate 301 (CHR ''a''))"
    using check_member_sound [of 255 "replicate 301 (CHR ''a'')"] by auto
  ultimately show ?thesis by simp
qed

section \<open>Python objects, the runtime and the message body\<close>

text \<open>
  The Python values the module handles. \<open>PyInt\<close> stands for both \<^verbatim>\<open>int\<close> and
  \<^verbatim>\<open>long\<close> (an unbounded integer), \<open>PyStr\<close> is a byte string, \<open>PyUnicode\<close> a
  sequence of code points, \<open>PyFloat\<close> a double given by its IEEE-754 bits, and
  \<open>PyDict\<close> lists the items of a dictionary in iteration order.
\<close>

datatype pyobj =
    PyNone
  | PyBool bool
  | PyInt int
  | PyFloat "64 word"
  | PyStr string
  | PyUnicode "nat list"
  | PyList "pyobj list"
  | PyTuple "pyobj list"
  | PyDict "(pyobj \<times> pyobj) list"

text \<open>
  What the model takes from the C and Python runtimes as parameters: the content of the
  uninitialised local \<^verbatim>\<open>end\<close> of \<^verbatim>\<open>_tdbus_check_signature\<close> (as an offset from
  \<^verbatim>\<open>start\<close>), the comparison of a float with an integer (\<^verbatim>\<open>PyObject_Compare\<close>), the
  truncation of a float to an integer, the conversion of an integer to a double
  (\<open>None\<close> when Python raises \<^verbatim>\<open>OverflowError\<close>), and the UTF-8 codec
  (\<^verbatim>\<open>PyUnicode_AsUTF8String\<close>, \<^verbatim>\<open>PyUnicode_DecodeUTF8\<close>).
\<close>

record runtime =
  uninit_end :: int
  float_compare :: "64 word \<Rightarrow> int \<Rightarrow> int"
  float_trunc :: "64 word \<Rightarrow> int"
  long_to_double :: "int \<Rightarrow> 64 word option"
  utf8_encode :: "nat list \<Rightarrow> string"
  utf8_decode :: "string \<Rightarrow> nat list option"

text \<open>
  The message body is the sequence of typed items that the libdbus iterator interface
  appends and reads back; libdbus's byte layout is not part of this repository. An
  array carries the signature of its elements, a variant the signature of its content.
  A \<^verbatim>\<open>DBusMessageIter\<close> that appends is the list of items written so far to its
  container; one that reads is the list of items not yet passed, the empty list being
  \<^verbatim>\<open>DBUS_TYPE_INVALID\<close>. The libdbus calls are modelled as succeeding (no memory
  exhaustion).
\<close>

datatype wire =
    WByte "8 word"
  | WBoolean bool
  | WInt16 "16 word"
  | WUInt16 "16 word"
  | WInt32 "32 word"
  | WUInt32 "32 word"
  | WInt64 "64 word"
  | WUInt64 "64 word"
  | WDouble "64 word"
  | WString string
  | WObjectPath string
  | WSignature string
  | WUnixFd "32 word"
  | WStruct "wire list"
  | WArray string "wire list"
  | WDictEntry "wire list"
  | WVariant string "wire list"

text \<open>
  \<open>cstr\<close> is what C reads at the \<^verbatim>\<open>char *\<close> of a Python string: the bytes before the
  first NUL. \<open>seq_items\<close> gives the items of an object for which \<^verbatim>\<open>PySequence_Check\<close>
  holds.
\<close>

definition cstr :: "string \<Rightarrow> string" where
  "cstr s = takeWhile (\<lambda>c. c \<noteq> CHR 0x00) s"

fun PyNumber_Check :: "pyobj \<Rightarrow> bool" where
  "PyNumber_Check (PyBool b) = True"
| "PyNumber_Check (PyInt n) = True"
| "PyNumber_Check (PyFloat w) = True"
| "PyNumber_Check v = False"

fun PyString_Check :: "pyobj \<Rightarrow> bool" where
  "PyString_Check (PyStr s) = True"
| "PyString_Check v = False"

fun seq_items :: "pyobj \<Rightarrow> pyobj list option" where
  "seq_items (PyList xs) = Some xs"
| "seq_items (PyTuple xs) = Some xs"
| "seq_items (PyStr s) = Some (map (\<lambda>c. PyStr [c]) s)"
| "seq_items (PyUnicode u) = Some (map (\<lambda>c. PyUnicode [c]) u)"
| "seq_items v = None"

definition PySequence_Check :: "pyobj \<Rightarrow> bool" where
  "PySequence_Check v \<longleftrightarrow> seq_items v \<noteq> None"

text \<open>
  \<^verbatim>\<open>_tdbus_check_number\<close> and the table \<^verbatim>\<open>_tdbus_check_numbers\<close> it reads through
  \<^verbatim>\<open>_tdbus_check_number_cache\<close>. \<open>PyObject_Compare\<close> is only called on objects that
  passed \<^verbatim>\<open>PyNumber_Check\<close>.
\<close>

fun PyObject_Compare :: "runtime \<Rightarrow> pyobj \<Rightarrow> int \<Rightarrow> int" where
  "PyObject_Compare rt (PyInt n) bound = (if n < bound then -1 else if n = bound then 0 else 1)"
| "PyObject_Compare rt (PyBool b) bound =
     (if of_bool b < bound then -1 else if of_bool b = bound then 0 else 1)"
| "PyObject_Compare rt (PyFloat w) bound = float_compare rt w bound"
| "PyObject_Compare rt v bound = -1"

definition check_number_cache :: "int list" where
  "check_number_cache =
     [0, 0xff, 0xffff,
      0xffffffff, 0xffffffffffffffff,
      -0x8000, 0x7fff,
      -0x80000000, 0x7fffffff,
      -0x8000000000000000, 0x7fffffffffffffff]"

definition number_bounds :: "char \<Rightarrow> (int \<times> int) option" where
  "number_bounds type =
     (if type = CHR ''y'' then Some (check_number_cache ! 0, check_number_cache ! 1)
      else if type = CHR ''q'' then Some (check_number_cache ! 0, check_number_cache ! 2)
      else if type = CHR ''u'' then Some (check_number_cache ! 0, check_number_cache ! 3)
      else if type = CHR ''t'' then Some (check_number_cache ! 0, check_number_cache ! 4)
      else if type = CHR ''n'' then Some (check_number_cache ! 5, check_number_cache ! 6)
      else if type = CHR ''i'' then Some (check_number_cache ! 7, check_number_cache ! 8)
      else if type = CHR ''x'' then Some (check_number_cache ! 9, check_number_cache ! 10)
      else None)"

definition check_number :: "runtime \<Rightarrow> pyobj \<Rightarrow> char \<Rightarrow> error + unit" where
  "check_number rt number type =
     (if \<not> PyNumber_Check number then Inl (ExpectingInteger type)
      else case number_bounds type of
             None \<Rightarrow> Inl NoException
           | Some (Pmin, Pmax) \<Rightarrow>
               if PyObject_Compare rt number Pmin = -1 \<or> PyObject_Compare rt number Pmax = 1
               then Inl (ValueOutOfRange type)
               else Inr ())"

text \<open>
  The conversions of the Python C API, on a platform where \<^verbatim>\<open>sizeof(long) == 8\<close>.
\<close>

fun PyInt_AsLong :: "runtime \<Rightarrow> pyobj \<Rightarrow> int" where
  "PyInt_AsLong rt (PyInt n) = (if - (2 ^ 63) \<le> n \<and> n < 2 ^ 63 then n else -1)"
| "PyInt_AsLong rt (PyBool b) = of_bool b"
| "PyInt_AsLong rt (PyFloat w) =
     (if - (2 ^ 63) \<le> float_trunc rt w \<and> float_trunc rt w < 2 ^ 63 then float_trunc rt w else -1)"
| "PyInt_AsLong rt v = -1"

fun PyInt_AsUnsignedLongMask :: "runtime \<Rightarrow> pyobj \<Rightarrow> 64 word" where
  "PyInt_AsUnsignedLongMask rt (PyInt n) = word_of_int n"
| "PyInt_AsUnsignedLongMask rt (PyBool b) = of_bool b"
| "PyInt_AsUnsignedLongMask rt (PyFloat w) = word_of_int (float_trunc rt w)"
| "PyInt_AsUnsignedLongMask rt v = -1"

fun PyObject_IsTrue :: "pyobj \<Rightarrow> bool" where
  "PyObject_IsTrue PyNone = False"
| "PyObject_IsTrue (PyBool b) = b"
| "PyObject_IsTrue (PyInt n) = (n \<noteq> 0)"
| "PyObject_IsTrue (PyFloat w) = (take_bit 63 w \<noteq> 0)"
| "PyObject_IsTrue (PyStr s) = (s \<noteq> [])"
| "PyObject_IsTrue (PyUnicode u) = (u \<noteq> [])"
| "PyObject_IsTrue (PyList xs) = (xs \<noteq> [])"
| "PyObject_IsTrue (PyTuple xs) = (xs \<noteq> [])"
| "PyObject_IsTrue (PyDict kvs) = (kvs \<noteq> [])"

fun PyFloat_AsDouble :: "runtime \<Rightarrow> pyobj \<Rightarrow> 64 word option" where
  "PyFloat_AsDouble rt (PyFloat w) = Some w"
| "PyFloat_AsDouble rt (PyInt n) = long_to_double rt n"
| "PyFloat_AsDouble rt (PyBool b) = long_to_double rt (of_bool b)"
| "PyFloat_AsDouble rt v = None"

definition PyDict_Items :: "(pyobj \<times> pyobj) list \<Rightarrow> pyobj list" where
  "PyDict_Items kvs = map (\<lambda>kv. PyTuple [fst kv, snd kv]) kvs"

definition byte_of_char :: "char \<Rightarrow> 8 word" where
  "byte_of_char c = of_nat (of_char c)"

definition char_of_byte :: "8 word \<Rightarrow> char" where
  "char_of_byte w = char_of (unat w)"

definition element_type :: "string \<Rightarrow> char" where
  "element_type csig = (case csig of [] \<Rightarrow> CHR 0x00 | e # es \<Rightarrow> e)"

text \<open>
  \<open>weight\<close> measures an object for the termination of the encoder: the items of a
  sequence never weigh more than the sequence, and the value of a variant pair weighs
  less than the pair.
\<close>

fun weight :: "pyobj \<Rightarrow> nat" where
  "weight (PyStr s) = length s"
| "weight (PyUnicode u) = length u"
| "weight (PyList xs) = Suc (sum_list (map weight xs))"
| "weight (PyTuple xs) = Suc (sum_list (map weight xs))"
| "weight (PyDict kvs) = Suc (sum_list (map (\<lambda>kv. Suc (weight (fst kv) + weight (snd kv))) kvs))"
| "weight v = 0"

lemma weight_seq_items:
  "seq_items arg = Some items \<Longrightarrow> sum_list (map weight items) \<le> weight arg"
  by (cases arg) (auto simp: comp_def sum_list_triv  simp flip: length_concat)

lemma weight_pair_item:
  "seq_items arg = Some [t, v] \<Longrightarrow> weight v < weight arg"
  by (cases arg) (auto simp: map_eq_Cons_conv)

lemma weight_dict_items:
  "sum_list (map weight (PyDict_Items kvs)) \<le> weight (PyDict kvs)"
  by (induction kvs) (auto simp: PyDict_Items_def)

section \<open>The encoder\<close>

text \<open>
  \<^verbatim>\<open>_tdbus_message_append_arg\<close>, the \<^verbatim>\<open>for\<close> loop of its array case
  (\<open>append_items\<close>) and \<^verbatim>\<open>_tdbus_message_append_args\<close>. Each takes the iterator and
  returns it with the new items appended. \<open>format1\<close> is \<^verbatim>\<open>format+1\<close>. As in the
  validator, \<^verbatim>\<open>_tdbus_message_append_args\<close> cuts the format at the end of each complete
  type before it passes it on, and skips one closing character after it.
\<close>

function append_arg :: "runtime \<Rightarrow> wire list \<Rightarrow> string \<Rightarrow> pyobj \<Rightarrow> error + wire list"
  and append_items :: "runtime \<Rightarrow> wire list \<Rightarrow> string \<Rightarrow> pyobj list \<Rightarrow> error + wire list"
  and append_args :: "runtime \<Rightarrow> wire list \<Rightarrow> string \<Rightarrow> pyobj list \<Rightarrow> error + wire list"
where
  "append_arg rt iter [] arg = Inl (UnknownFormat (CHR 0x00))"
| "append_arg rt iter (c # format1) arg =
    (if c = CHR ''y'' then
       (case check_number rt arg c of Inl e \<Rightarrow> Inl e
        | Inr ok \<Rightarrow> Inr (iter @ [WByte (word_of_int (PyInt_AsLong rt arg))]))
     else if c = CHR ''b'' then Inr (iter @ [WBoolean (PyObject_IsTrue arg)])
     else if c = CHR ''n'' then
       (case check_number rt arg c of Inl e \<Rightarrow> Inl e
        | Inr ok \<Rightarrow> Inr (iter @ [WInt16 (word_of_int (PyInt_AsLong rt arg))]))
     else if c = CHR ''q'' then
       (case check_number rt arg c of Inl e \<Rightarrow> Inl e
        | Inr ok \<Rightarrow> Inr (iter @ [WUInt16 (word_of_int (PyInt_AsLong rt arg))]))
     else if c = CHR ''i'' then
       (case check_number rt arg c of Inl e \<Rightarrow> Inl e
        | Inr ok \<Rightarrow> Inr (iter @ [WInt32 (word_of_int (PyInt_AsLong rt arg))]))
     else if c = CHR ''u'' then
       (case check_number rt arg c of Inl e \<Rightarrow> Inl e
        | Inr ok \<Rightarrow> Inr (iter @ [WUInt32 (word_of_int (PyInt_AsLong rt arg))]))
     else if c = CHR ''x'' then
       (case check_number rt arg c of Inl e \<Rightarrow> Inl e
        | Inr ok \<Rightarrow> Inr (iter @ [WInt64 (word_of_int (PyInt_AsLong rt arg))]))
     else if c = CHR ''t'' then
       (case check_number rt arg c of Inl e \<Rightarrow> Inl e
        | Inr ok \<Rightarrow> Inr (iter @ [WUInt64 (PyInt_AsUnsignedLongMask rt arg)]))
     else if c = CHR ''d'' then
       (case PyFloat_AsDouble rt arg of None \<Rightarrow> Inl PythonError
        | Some w \<Rightarrow> Inr (iter @ [WDouble w]))
     else if c = CHR ''o'' then
       (case arg of
          PyStr s \<Rightarrow>
            if \<not> check_path (cstr s) then Inl InvalidObjectPath
            else Inr (iter @ [WObjectPath (cstr s)])
        | _ \<Rightarrow> Inl (ExpectingStr c))
     else if c = CHR ''g'' then
       (case arg of
          PyStr s \<Rightarrow>
            if \<not> check_signature (uninit_end rt) (cstr s) 0 0 then Inl InvalidSignature
            else Inr (iter @ [WSignature (cstr s)])
        | _ \<Rightarrow> Inl (ExpectingStr c))
     else if c = CHR ''s'' then
       (case arg of
          PyUnicode u \<Rightarrow> Inr (iter @ [WString (cstr (utf8_encode rt u))])
        | PyStr s \<Rightarrow> Inr (iter @ [WString (cstr s)])
        | _ \<Rightarrow> Inl (ExpectingStrOrUnicode c))
     else if c = CHR ''('' then
       (case seq_items arg of
          None \<Rightarrow> Inl ExpectingSequenceStruct
        | Some items \<Rightarrow>
            (case append_args rt [] format1 items of Inl e \<Rightarrow> Inl e
             | Inr subiter \<Rightarrow> Inr (iter @ [WStruct subiter])))
     else if c = CHR ''a'' then
       (if element_type format1 = CHR ''y'' then
          (case arg of
             PyStr s \<Rightarrow> Inr (iter @ [WArray format1 (map (\<lambda>b. WByte (byte_of_char b)) s)])
           | _ \<Rightarrow> Inl ExpectingStrByteArray)
        else if element_type format1 = CHR ''{'' then
          (case arg of
             PyDict kvs \<Rightarrow>
               (case append_items rt [] format1 (PyDict_Items kvs) of Inl e \<Rightarrow> Inl e
                | Inr subiter \<Rightarrow> Inr (iter @ [WArray format1 subiter]))
           | _ \<Rightarrow> Inl ExpectingDict)
        else
          (case seq_items arg of
             None \<Rightarrow> Inl ExpectingSequenceArray
           | Some items \<Rightarrow>
               (case append_items rt [] format1 items of Inl e \<Rightarrow> Inl e
                | Inr subiter \<Rightarrow> Inr (iter @ [WArray format1 subiter]))))
     else if c = CHR ''{'' then
       (case seq_items arg of
          None \<Rightarrow> Inl ExpectingSequenceDictEntry
        | Some items \<Rightarrow>
            (case append_args rt [] format1 items of Inl e \<Rightarrow> Inl e
             | Inr subiter \<Rightarrow> Inr (iter @ [WDictEntry subiter])))
     else if c = CHR ''v'' then
       (case seq_items arg of
          Some [Ptype, Pvalue] \<Rightarrow>
            (case Ptype of
               PyStr s \<Rightarrow>
                 if \<not> check_signature (uninit_end rt) (cstr s) 0 0
                 then Inl InvalidVariantSignature
                 else (case get_one_full_type (cstr s) of
                         Inr [] \<Rightarrow>
                           (case append_arg rt [] (cstr s) Pvalue of Inl e \<Rightarrow> Inl e
                            | Inr subiter \<Rightarrow> Inr (iter @ [WVariant (cstr s) subiter]))
                       | _ \<Rightarrow> Inl VariantNotOneType)
             | _ \<Rightarrow> Inl VariantTypeNotString)
        | _ \<Rightarrow> Inl VariantNotPair)
     else Inl (UnknownFormat c))"
| "append_items rt subiter format [] = Inr subiter"
| "append_items rt subiter format (Pitem # rest) =
     (case append_arg rt subiter format Pitem of Inl e \<Rightarrow> Inl e
      | Inr subiter' \<Rightarrow> append_items rt subiter' format rest)"
| "append_args rt iter [] args =
     (if args \<noteq> [] then Inl TooManyArguments else Inr iter)"
| "append_args rt iter (c # cs) args =
     (case get_one_full_type (c # cs) of
        Inl e \<Rightarrow> Inl e
      | Inr rest \<Rightarrow>
          (case args of
             [] \<Rightarrow> Inl TooFewArguments
           | Parg # args' \<Rightarrow>
               (case append_arg rt iter (take (length (c # cs) - length rest) (c # cs)) Parg of
                  Inl e \<Rightarrow> Inl e
                | Inr iter' \<Rightarrow> append_args rt iter' (drop (closer_skip rest) rest) args')))"
  by pat_completeness auto
termination
proof (relation "measures
   [\<lambda>x. case x of Inl (rt, it, fmt, arg) \<Rightarrow> weight arg
              | Inr (Inl (rt, it, fmt, items)) \<Rightarrow> sum_list (map weight items)
              | Inr (Inr (rt, it, fmt, args)) \<Rightarrow> sum_list (map weight args),
    \<lambda>x. case x of Inl (rt, it, fmt, arg) \<Rightarrow> length fmt
              | Inr (Inl (rt, it, fmt, items)) \<Rightarrow> length fmt
              | Inr (Inr (rt, it, fmt, args)) \<Rightarrow> length fmt,
    \<lambda>x. case x of Inl (rt, it, fmt, arg) \<Rightarrow> 0
              | Inr (Inl (rt, it, fmt, items)) \<Rightarrow> Suc (length items)
              | Inr (Inr (rt, it, fmt, args)) \<Rightarrow> Suc (length args)]", goal_cases)
  case 1
  then show ?case by simp
next
  case (2 rt iter c format1 arg x2)
  then show ?case using weight_seq_items [of arg x2] by auto
next
  case (3 rt iter c format1 arg x9)
  then show ?case using weight_dict_items [of x9] by auto
next
  case (4 rt iter c format1 arg x2)
  then show ?case using weight_seq_items [of arg x2] by auto
next
  case (5 rt iter c format1 arg x2)
  then show ?case using weight_seq_items [of arg x2] by auto
next
  case (6 rt iter c format1 arg x2 x21 x22 x21a x22a x5 x2a)
  then show ?case using weight_pair_item [of arg x21 x21a] by auto
next
  case (7 rt subiter format Pitem rest)
  then show ?case by auto
next
  case (8 rt subiter format Pitem rest x2)
  then show ?case by auto
next
  case (9 rt iter c cs args x2 x21 x22)
  then show ?case by auto
next
  case (10 rt iter c cs args x2 x21 x22 x2a)
  then show ?case
    using get_one_full_type_length [of "c # cs" x2]
    by (auto simp del: get_one_full_type.simps)
qed

section \<open>The decoder\<close>

text \<open>
  \<^verbatim>\<open>PyDict_SetItem\<close> fails on an unhashable key; otherwise it replaces the value of
  the item stored under the same key, keeping the key object stored first, or adds the
  item. A dictionary of CPython takes two keys for the same when they are one object,
  or have equal hashes and compare equal with \<^verbatim>\<open>==\<close>. Objects that compare equal have
  equal hashes, and every key the decoder stores is an object it has just built, or a
  shared one (\<^verbatim>\<open>True\<close>, a small integer) that is equal to itself: two keys are the same
  exactly when \<^verbatim>\<open>==\<close> holds of them.

  \<open>key_value\<close> is what \<^verbatim>\<open>==\<close> compares in a hashable object. Bool, int, long and
  float compare by numeric value: \<open>KNum\<close> holds the value times \<open>2^1074\<close>, an integer
  for every finite double (sign bit 63, exponent bits 62 to 52, fraction bits 51 to
  0), so \<^verbatim>\<open>0.0\<close>, \<^verbatim>\<open>-0.0\<close>, \<^verbatim>\<open>0\<close> and \<^verbatim>\<open>False\<close> are one key; an infinity is equal
  to itself only, and a NaN has no value: it is equal to nothing, itself included. A
  unicode object compares by its code points, a byte string of ASCII characters as
  the unicode object with these characters, any other byte string by its bytes. A
  tuple compares item by item. A list or a dictionary is not hashable and is never
  compared. \<open>same_key a b\<close> says that \<open>a\<close> and \<open>b\<close> are the same key, and
  \<open>distinct_keys\<close> that no two keys of a list are.

  \<open>fixed_array\<close> is the block of bytes \<^verbatim>\<open>dbus_message_iter_get_fixed_array\<close> returns.

  \<^verbatim>\<open>_tdbus_message_read_arg\<close> reads the item under the iterator; \<open>read_items\<close>
  is the \<^verbatim>\<open>while\<close> loop of its array case, with the dictionary or list built so far,
  and \<open>read_list\<close> the loop of \<^verbatim>\<open>_tdbus_message_read_args\<close>, whose result
  \<open>read_args\<close> turns into a tuple; the struct case does the same in place. In the
  dict-entry case \<^verbatim>\<open>dbus_message_iter_next\<close> returns true exactly when a second item
  follows the first. The \<^verbatim>\<open>depth\<close> argument of the source is passed along and never
  read; the model leaves it out.
\<close>

fun hashable :: "pyobj \<Rightarrow> bool" where
  "hashable (PyList xs) = False"
| "hashable (PyDict kvs) = False"
| "hashable (PyTuple xs) = (\<forall>x \<in> set xs. hashable x)"
| "hashable v = True"

datatype keyval =
    KNone
  | KNum int
  | KInf bool
  | KText "nat list"
  | KBytes string
  | KTuple "keyval list"

definition float_key :: "64 word \<Rightarrow> keyval option" where
  "float_key w =
     (let e = unat (take_bit 11 (drop_bit 52 w));
          m = uint (take_bit 52 w);
          s = (if bit w 63 then - 1 else 1)
      in if e = 2047 then (if m = 0 then Some (KInf (bit w 63)) else None)
         else if e = 0 then Some (KNum (s * m))
         else Some (KNum (s * ((2 ^ 52 + m) * 2 ^ (e - 1)))))"

fun key_value :: "pyobj \<Rightarrow> keyval option" where
  "key_value PyNone = Some KNone"
| "key_value (PyBool b) = Some (KNum (if b then 2 ^ 1074 else 0))"
| "key_value (PyInt n) = Some (KNum (n * 2 ^ 1074))"
| "key_value (PyFloat w) = float_key w"
| "key_value (PyStr s) =
     Some (if \<forall>c \<in> set s. of_char c < (128 :: nat) then KText (map of_char s) else KBytes s)"
| "key_value (PyUnicode u) = Some (KText u)"
| "key_value (PyTuple xs) = map_option KTuple (those (map key_value xs))"
| "key_value (PyList xs) = None"
| "key_value (PyDict kvs) = None"

definition same_key :: "pyobj \<Rightarrow> pyobj \<Rightarrow> bool" where
  "same_key a b = (case key_value a of None \<Rightarrow> False | Some x \<Rightarrow> key_value b = Some x)"

fun distinct_keys :: "pyobj list \<Rightarrow> bool" where
  "distinct_keys [] = True"
| "distinct_keys (k # ks) = ((\<forall>k' \<in> set ks. \<not> same_key k k') \<and> distinct_keys ks)"

fun PyDict_SetItem :: "(pyobj \<times> pyobj) list \<Rightarrow> pyobj \<Rightarrow> pyobj \<Rightarrow> (pyobj \<times> pyobj) list" where
  "PyDict_SetItem [] key val = [(key, val)]"
| "PyDict_SetItem ((k, v) # kvs) key val =
     (if same_key k key then (k, val) # kvs else (k, v) # PyDict_SetItem kvs key val)"

definition fixed_array :: "wire list \<Rightarrow> 8 word list" where
  "fixed_array sub = concat (map (\<lambda>w. case w of WByte b \<Rightarrow> [b] | _ \<Rightarrow> []) sub)"

function read_arg :: "runtime \<Rightarrow> wire list \<Rightarrow> error + pyobj"
  and read_items :: "runtime \<Rightarrow> wire list \<Rightarrow> pyobj \<Rightarrow> error + pyobj"
  and read_list :: "runtime \<Rightarrow> wire list \<Rightarrow> pyobj list \<Rightarrow> error + pyobj list"
where
  "read_arg rt [] = Inl NoException"
| "read_arg rt (w # rest) =
     (case w of
        WByte v \<Rightarrow> Inr (PyInt (uint v))
      | WBoolean v \<Rightarrow> Inr (PyBool v)
      | WInt16 v \<Rightarrow> Inr (PyInt (sint v))
      | WUInt16 v \<Rightarrow> Inr (PyInt (uint v))
      | WInt32 v \<Rightarrow> Inr (PyInt (sint v))
      | WUInt32 v \<Rightarrow> Inr (PyInt (uint v))
      | WInt64 v \<Rightarrow> Inr (PyInt (sint v))
      | WUInt64 v \<Rightarrow> Inr (PyInt (uint v))
      | WDouble v \<Rightarrow> Inr (PyFloat v)
      | WString s \<Rightarrow>
          (case utf8_decode rt (cstr s) of None \<Rightarrow> Inl PythonError
           | Some u \<Rightarrow> Inr (PyUnicode u))
      | WObjectPath s \<Rightarrow> Inr (PyStr (cstr s))
      | WSignature s \<Rightarrow> Inr (PyStr (cstr s))
      | WUnixFd v \<Rightarrow> Inl NoException
      | WStruct subiter \<Rightarrow>
          (case read_list rt subiter [] of Inl e \<Rightarrow> Inl e
           | Inr Plist \<Rightarrow> Inr (PyTuple Plist))
      | WArray csig subiter \<Rightarrow>
          if element_type csig = CHR ''y''
          then Inr (PyStr (map char_of_byte (fixed_array subiter)))
          else read_items rt subiter
                 (if element_type csig = CHR ''{'' then PyDict [] else PyList [])
      | WDictEntry subiter \<Rightarrow>
          (case read_arg rt subiter of
             Inl e \<Rightarrow> Inl e
           | Inr Pkey \<Rightarrow>
               (case subiter of
                  k # v # others \<Rightarrow>
                    (case read_arg rt (v # others) of Inl e \<Rightarrow> Inl e
                     | Inr Pvalue \<Rightarrow> Inr (PyTuple [Pkey, Pvalue]))
                | _ \<Rightarrow> Inl IllegalDictEntry))
      | WVariant csig subiter \<Rightarrow>
          (case read_arg rt subiter of Inl e \<Rightarrow> Inl e
           | Inr Pvalue \<Rightarrow> Inr (PyTuple [PyStr csig, Pvalue])))"
| "read_items rt [] Parg = Inr Parg"
| "read_items rt (w # rest) Parg =
     (case read_arg rt (w # rest) of
        Inl e \<Rightarrow> Inl e
      | Inr Pitem \<Rightarrow>
          (case Parg of
             PyDict d \<Rightarrow>
               (case Pitem of
                  PyTuple [k, v] \<Rightarrow>
                    if \<not> hashable k then Inl PythonError
                    else read_items rt rest (PyDict (PyDict_SetItem d k v))
                | _ \<Rightarrow> Inl AssertionFailed)
           | PyList xs \<Rightarrow> read_items rt rest (PyList (xs @ [Pitem]))
           | _ \<Rightarrow> Inl PythonError))"
| "read_list rt [] Plist = Inr Plist"
| "read_list rt (w # rest) Plist =
     (case read_arg rt (w # rest) of Inl e \<Rightarrow> Inl e
      | Inr Parg \<Rightarrow> read_list rt rest (Plist @ [Parg]))"
  by pat_completeness auto
termination
  by (relation "measures
   [\<lambda>x. case x of Inl (rt, it) \<Rightarrow> size_list size it
              | Inr (Inl (rt, it, acc)) \<Rightarrow> size_list size it
              | Inr (Inr (rt, it, acc)) \<Rightarrow> size_list size it,
    \<lambda>x. case x of Inl (rt, it) \<Rightarrow> 0
              | Inr (Inl (rt, it, acc)) \<Rightarrow> 1
              | Inr (Inr (rt, it, acc)) \<Rightarrow> 1]") auto

definition read_args :: "runtime \<Rightarrow> wire list \<Rightarrow> error + pyobj" where
  "read_args rt iter =
     (case read_list rt iter [] of Inl e \<Rightarrow> Inl e | Inr Plist \<Rightarrow> Inr (PyTuple Plist))"

definition tdbus_message_get_args :: "runtime \<Rightarrow> wire list \<Rightarrow> error + pyobj" where
  "tdbus_message_get_args rt message =
     (if message \<noteq> [] then read_args rt message else Inr (PyTuple []))"

definition tdbus_message_set_args ::
    "runtime \<Rightarrow> wire list \<Rightarrow> string \<Rightarrow> pyobj \<Rightarrow> error + wire list" where
  "tdbus_message_set_args rt message format Pargs =
     (case seq_items Pargs of
        None \<Rightarrow> Inl ExpectingSequenceArguments
      | Some args \<Rightarrow>
          if \<not> check_signature (uninit_end rt) format 0 0 then Inl IllegalSignature
          else append_args rt message format args)"

section \<open>The numeric range check\<close>

text \<open>
  The bounds in the specification's words: the inclusive two's-complement range of
  each integer wire type. \<open>in_bounds\<close> says a numeric object lies within a range; for a
  float the comparison is the runtime's.
\<close>

definition integer_bounds :: "char \<Rightarrow> int \<times> int" where
  "integer_bounds t =
     (if t = CHR ''y'' then (0, 255)
      else if t = CHR ''q'' then (0, 65535)
      else if t = CHR ''u'' then (0, 2 ^ 32 - 1)
      else if t = CHR ''t'' then (0, 2 ^ 64 - 1)
      else if t = CHR ''n'' then (- (2 ^ 15), 2 ^ 15 - 1)
      else if t = CHR ''i'' then (- (2 ^ 31), 2 ^ 31 - 1)
      else (- (2 ^ 63), 2 ^ 63 - 1))"

fun in_bounds :: "runtime \<Rightarrow> pyobj \<Rightarrow> int \<times> int \<Rightarrow> bool" where
  "in_bounds rt (PyInt n) (lo, hi) = (lo \<le> n \<and> n \<le> hi)"
| "in_bounds rt (PyBool b) (lo, hi) = (lo \<le> of_bool b \<and> of_bool b \<le> hi)"
| "in_bounds rt (PyFloat w) (lo, hi) = (float_compare rt w lo \<noteq> -1 \<and> float_compare rt w hi \<noteq> 1)"
| "in_bounds rt v (lo, hi) = False"

text \<open>A runtime to evaluate examples with; its codec is the ASCII part of UTF-8.\<close>

definition sample_runtime :: runtime where
  "sample_runtime =
     \<lparr>uninit_end = 0, float_compare = (\<lambda>w n. 0), float_trunc = (\<lambda>w. 0),
      long_to_double = (\<lambda>n. None),
      utf8_encode = map char_of, utf8_decode = (\<lambda>s. Some (map of_char s))\<rparr>"

lemma number_bounds_integer:
  "t \<in> set ''yqutnix'' \<Longrightarrow> number_bounds t = Some (integer_bounds t)"
  by (auto simp: number_bounds_def integer_bounds_def check_number_cache_def)

lemma check_number_numeric:
  assumes "t \<in> set ''yqutnix''" and "PyNumber_Check v"
  shows "check_number rt v t =
           (if in_bounds rt v (integer_bounds t) then Inr () else Inl (ValueOutOfRange t))"
proof -
  obtain lo hi where b: "integer_bounds t = (lo, hi)" by (cases "integer_bounds t")
  then have nb: "number_bounds t = Some (lo, hi)"
    using number_bounds_integer [OF assms(1)] by simp
  show ?thesis
    using assms(2) by (cases v) (auto simp: check_number_def nb b)
qed

text \<open>
  Claim C4. For each integer wire type, \<^verbatim>\<open>_tdbus_check_number\<close> succeeds exactly when
  the value is numeric and lies within the inclusive bounds of the type (0..255,
  0..65535, 0..2^32-1, 0..2^64-1, -2^15..2^15-1, -2^31..2^31-1, -2^63..2^63-1), compared
  as unbounded integers. A non-numeric value is rejected with the type error, before
  any comparison; a numeric value out of range with the range error. 255 passes for
  byte and 256 fails, -1 fails for unsigned 16-bit, 32767 passes for signed 16-bit and
  32768 fails.
\<close>

theorem check_number_range:
  assumes "t \<in> set ''yqutnix''"
  shows "(check_number rt v t = Inr () \<longleftrightarrow> PyNumber_Check v \<and> in_bounds rt v (integer_bounds t)) \<and>
         (\<not> PyNumber_Check v \<longrightarrow> check_number rt v t = Inl (ExpectingInteger t)) \<and>
         (PyNumber_Check v \<and> \<not> in_bounds rt v (integer_bounds t) \<longrightarrow>
            check_number rt v t = Inl (ValueOutOfRange t)) \<and>
         check_number rt (PyInt 255) (CHR ''y'') = Inr () \<and>
         check_number rt (PyInt 256) (CHR ''y'') = Inl (ValueOutOfRange (CHR ''y'')) \<and>
         check_number rt (PyInt (-1)) (CHR ''q'') = Inl (ValueOutOfRange (CHR ''q'')) \<and>
         check_number rt (PyInt 32767) (CHR ''n'') = Inr () \<and>
         check_number rt (PyInt 32768) (CHR ''n'') = Inl (ValueOutOfRange (CHR ''n''))"
proof -
  have a: "\<not> PyNumber_Check v \<longrightarrow> check_number rt v t = Inl (ExpectingInteger t)"
    by (simp add: check_number_def)
  have b: "PyNumber_Check v \<longrightarrow> check_number rt v t =
           (if in_bounds rt v (integer_bounds t) then Inr () else Inl (ValueOutOfRange t))"
    using check_number_numeric [OF assms] by simp
  have c: "check_number rt v t = Inr () \<longleftrightarrow> PyNumber_Check v \<and> in_bounds rt v (integer_bounds t)"
    using a b by (cases "PyNumber_Check v") auto
  have d: "check_number rt (PyInt 255) (CHR ''y'') = Inr ()"
    "check_number rt (PyInt 256) (CHR ''y'') = Inl (ValueOutOfRange (CHR ''y''))"
    "check_number rt (PyInt (-1)) (CHR ''q'') = Inl (ValueOutOfRange (CHR ''q''))"
    "check_number rt (PyInt 32767) (CHR ''n'') = Inr ()"
    "check_number rt (PyInt 32768) (CHR ''n'') = Inl (ValueOutOfRange (CHR ''n''))"
    by (simp_all add: check_number_def number_bounds_def check_number_cache_def)
  from a b c d show ?thesis by simp
qed

theorem check_number_range_witness:
  "check_number sample_runtime (PyInt (2 ^ 64 - 1)) (CHR ''t'') = Inr () \<and>
   check_number sample_runtime (PyInt (2 ^ 64)) (CHR ''t'') = Inl (ValueOutOfRange (CHR ''t'')) \<and>
   check_number sample_runtime (PyInt (- (2 ^ 63))) (CHR ''x'') = Inr () \<and>
   check_number sample_runtime (PyInt (- (2 ^ 63) - 1)) (CHR ''x'') = Inl (ValueOutOfRange (CHR ''x'')) \<and>
   check_number sample_runtime (PyStr ''12'') (CHR ''i'') = Inl (ExpectingInteger (CHR ''i''))"
  using check_number_range [of "CHR ''t''" sample_runtime "PyInt (2 ^ 64 - 1)"]
    check_number_range [of "CHR ''t''" sample_runtime "PyInt (2 ^ 64)"]
    check_number_range [of "CHR ''x''" sample_runtime "PyInt (- (2 ^ 63))"]
    check_number_range [of "CHR ''x''" sample_runtime "PyInt (- (2 ^ 63) - 1)"]
    check_number_range [of "CHR ''i''" sample_runtime "PyStr ''12''"]
  by (simp add: integer_bounds_def)

section \<open>Arity of the encoder\<close>

text \<open>
  \<open>count_types\<close> counts the complete types of a format the way the loop of
  \<^verbatim>\<open>_tdbus_message_append_args\<close> steps through it.
\<close>

function count_types :: "string \<Rightarrow> nat option" where
  "count_types [] = Some 0"
| "count_types (c # cs) =
     (case get_one_full_type (c # cs) of
        Inl e \<Rightarrow> None
      | Inr rest \<Rightarrow> map_option Suc (count_types (drop (closer_skip rest) rest)))"
  by pat_completeness auto
termination
  by (relation "measure length")
     (auto simp del: get_one_full_type.simps dest!: get_one_full_type_length)

lemma append_args_count:
  "append_args rt iter format args = Inr iter' \<Longrightarrow> count_types format = Some (length args)"
proof (induction args arbitrary: format iter)
  case Nil
  then show ?case
    by (cases format) (auto simp del: get_one_full_type.simps split: sum.splits)
next
  case (Cons a args)
  then obtain c cs where f: "format = c # cs"
    by (cases format) (auto split: if_splits)
  with Cons.prems obtain rest iter1 where
    g: "get_one_full_type (c # cs) = Inr rest" and
    r: "append_args rt iter1 (drop (closer_skip rest) rest) args = Inr iter'"
    by (auto simp del: get_one_full_type.simps append_arg.simps split: sum.splits)
  from Cons.IH [OF r] show ?case using f g
    by (simp del: get_one_full_type.simps)
qed

lemma append_args_too_many:
  "append_args rt iter format args = Inr iter' \<Longrightarrow> extra \<noteq> [] \<Longrightarrow>
   append_args rt iter format (args @ extra) = Inl TooManyArguments"
proof (induction args arbitrary: format iter)
  case Nil
  then show ?case
    by (cases format) (auto simp del: get_one_full_type.simps split: sum.splits)
next
  case (Cons a args)
  then obtain c cs where f: "format = c # cs"
    by (cases format) (auto split: if_splits)
  with Cons.prems obtain rest iter1 where
    g: "get_one_full_type (c # cs) = Inr rest" and
    a: "append_arg rt iter (take (length (c # cs) - length rest) (c # cs)) a = Inr iter1" and
    r: "append_args rt iter1 (drop (closer_skip rest) rest) args = Inr iter'"
    by (auto simp del: get_one_full_type.simps append_arg.simps split: sum.splits)
  from Cons.IH [OF r Cons.prems(2)] show ?case using f g a
    by (simp del: get_one_full_type.simps append_arg.simps)
qed

lemma append_args_too_few:
  "append_args rt iter format (args @ extra) = Inr iter' \<Longrightarrow> extra \<noteq> [] \<Longrightarrow>
   append_args rt iter format args = Inl TooFewArguments"
proof (induction args arbitrary: format iter)
  case Nil
  then obtain x xs where e: "extra = x # xs" by (cases extra) auto
  with Nil obtain c cs where f: "format = c # cs"
    by (cases format) (auto split: if_splits)
  with Nil e obtain rest where "get_one_full_type (c # cs) = Inr rest"
    by (auto simp del: get_one_full_type.simps append_arg.simps split: sum.splits)
  then show ?case using f by (simp del: get_one_full_type.simps)
next
  case (Cons a args)
  then obtain c cs where f: "format = c # cs"
    by (cases format) (auto split: if_splits)
  with Cons.prems obtain rest iter1 where
    g: "get_one_full_type (c # cs) = Inr rest" and
    a: "append_arg rt iter (take (length (c # cs) - length rest) (c # cs)) a = Inr iter1" and
    r: "append_args rt iter1 (drop (closer_skip rest) rest) (args @ extra) = Inr iter'"
    by (auto simp del: get_one_full_type.simps append_arg.simps split: sum.splits)
  from Cons.IH [OF r Cons.prems(2)] show ?case using f g a
    by (simp del: get_one_full_type.simps append_arg.simps)
qed

lemma ex_too_few: "append_args rt [] ''ii'' [PyInt 1] = Inl TooFewArguments"
  by (simp add: closer_skip_def check_number_def number_bounds_def check_number_cache_def)

lemma ex_too_many: "append_args rt [] ''ii'' [PyInt 1, PyInt 2, PyInt 3] = Inl TooManyArguments"
  by (simp add: closer_skip_def check_number_def number_bounds_def check_number_cache_def)

text \<open>
  Claim C5, as the code has it. Encoding fails whenever the number of values differs
  from the number of complete types in the format. Where a list of values encodes,
  the same list with further values fails with "too many arguments", detected after the
  whole format is consumed, and every proper prefix of it fails with "too few
  arguments". Format \<^verbatim>\<open>ii\<close> with one integer, and with three, fails so.
\<close>

theorem append_args_arity:
  "(count_types format \<noteq> Some (length args) \<longrightarrow> (\<exists>e. append_args rt iter format args = Inl e)) \<and>
   (append_args rt iter format args = Inr iter' \<and> extra \<noteq> [] \<longrightarrow>
      append_args rt iter format (args @ extra) = Inl TooManyArguments) \<and>
   (append_args rt iter format (args @ extra) = Inr iter' \<and> extra \<noteq> [] \<longrightarrow>
      append_args rt iter format args = Inl TooFewArguments) \<and>
   append_args rt [] ''ii'' [PyInt 1] = Inl TooFewArguments \<and>
   append_args rt [] ''ii'' [PyInt 1, PyInt 2, PyInt 3] = Inl TooManyArguments"
proof (intro conjI impI)
  assume "count_types format \<noteq> Some (length args)"
  then show "\<exists>e. append_args rt iter format args = Inl e"
    using append_args_count [of rt iter format args]
    by (cases "append_args rt iter format args") auto
next
  assume "append_args rt iter format args = Inr iter' \<and> extra \<noteq> []"
  then show "append_args rt iter format (args @ extra) = Inl TooManyArguments"
    using append_args_too_many by blast
next
  assume "append_args rt iter format (args @ extra) = Inr iter' \<and> extra \<noteq> []"
  then show "append_args rt iter format args = Inl TooFewArguments"
    using append_args_too_few by blast
next
  show "append_args rt [] ''ii'' [PyInt 1] = Inl TooFewArguments"
    by (rule ex_too_few)
next
  show "append_args rt [] ''ii'' [PyInt 1, PyInt 2, PyInt 3] = Inl TooManyArguments"
    by (rule ex_too_many)
qed

theorem append_args_arity_witness:
  "append_args sample_runtime [] ''i(ss)'' [PyInt 7] = Inl TooFewArguments \<and>
   append_args sample_runtime [] ''i(ss)'' ([PyInt 7, PyTuple [PyStr ''a'', PyStr ''b'']] @ [PyNone])
     = Inl TooManyArguments \<and>
   (\<exists>e. append_args sample_runtime [] ''i(ss)'' [PyNone, PyNone, PyNone] = Inl e)"
proof -
  let ?w = "[WInt32 7, WStruct [WString ''a'', WString ''b'']]"
  have ok: "append_args sample_runtime [] ''i(ss)'' ([PyInt 7] @ [PyTuple [PyStr ''a'', PyStr ''b'']])
          = Inr ?w"
    by code_simp
  have ok': "append_args sample_runtime [] ''i(ss)'' [PyInt 7, PyTuple [PyStr ''a'', PyStr ''b'']]
          = Inr ?w"
    by code_simp
  have n: "count_types ''i(ss)'' \<noteq> Some (length [PyNone, PyNone, PyNone])"
    by code_simp
  have ne: "[PyTuple [PyStr ''a'', PyStr ''b'']] \<noteq> []" "[PyNone] \<noteq> []"
    by simp_all
  have a: "append_args sample_runtime [] ''i(ss)'' [PyInt 7] = Inl TooFewArguments"
    using append_args_arity [of "''i(ss)''" "[PyInt 7]" sample_runtime "[]" ?w
        "[PyTuple [PyStr ''a'', PyStr ''b'']]"] ok ne(1)
    by blast
  have b: "append_args sample_runtime [] ''i(ss)''
             ([PyInt 7, PyTuple [PyStr ''a'', PyStr ''b'']] @ [PyNone]) = Inl TooManyArguments"
    using append_args_arity [of "''i(ss)''" "[PyInt 7, PyTuple [PyStr ''a'', PyStr ''b'']]"
        sample_runtime "[]" ?w "[PyNone]"] ok' ne(2)
    by blast
  have c: "\<exists>e. append_args sample_runtime [] ''i(ss)'' [PyNone, PyNone, PyNone] = Inl e"
    using append_args_arity [of "''i(ss)''" "[PyNone, PyNone, PyNone]" sample_runtime "[]"] n
    by blast
  from a b c show ?thesis by blast
qed

text \<open>
  The claim as written fails: the values are encoded in order and the first error is
  the one reported, so format \<^verbatim>\<open>ii\<close> with the single value \<^verbatim>\<open>"x"\<close> fails with the
  type error of its first value, not with an arity error.
\<close>

theorem append_args_arity_counterexample:
  "append_args sample_runtime [] ''ii'' [PyStr ''x''] = Inl (ExpectingInteger (CHR ''i'')) \<and>
   count_types ''ii'' = Some 2 \<and> length [PyStr ''x''] = 1"
proof -
  have "append_args sample_runtime [] ''ii'' [PyStr ''x''] = Inl (ExpectingInteger (CHR ''i''))"
    by code_simp
  moreover have "count_types ''ii'' = Some 2" by code_simp
  ultimately show ?thesis by simp
qed

section \<open>Decoding dict-entries\<close>

lemma read_arg_head: "read_arg rt (w # rest) = read_arg rt [w]"
  by simp

text \<open>
  Claim C7, as the code has it. Decoding a dict-entry container with fewer than two
  inner elements fails: with none, no value is produced; with one, the error is
  "illegal dict_entry" when the key decodes and the error of the key otherwise. A
  dict-entry with two inner elements that decode yields the pair of them.
\<close>

theorem read_arg_dict_entry:
  "read_arg rt (WDictEntry [] # rest) = Inl NoException \<and>
   (read_arg rt [k] = Inr Pkey \<longrightarrow> read_arg rt (WDictEntry [k] # rest) = Inl IllegalDictEntry) \<and>
   (read_arg rt [k] = Inl e \<longrightarrow> read_arg rt (WDictEntry [k] # rest) = Inl e) \<and>
   (read_arg rt [k] = Inr Pkey \<and> read_arg rt [v] = Inr Pvalue \<longrightarrow>
      read_arg rt (WDictEntry [k, v] # rest) = Inr (PyTuple [Pkey, Pvalue]))"
proof (intro conjI impI)
  show "read_arg rt (WDictEntry [] # rest) = Inl NoException"
    by simp
next
  assume "read_arg rt [k] = Inr Pkey"
  then show "read_arg rt (WDictEntry [k] # rest) = Inl IllegalDictEntry"
    by (subst read_arg.simps) (simp del: read_arg.simps)
next
  assume "read_arg rt [k] = Inl e"
  then show "read_arg rt (WDictEntry [k] # rest) = Inl e"
    by (subst read_arg.simps) (simp del: read_arg.simps)
next
  assume "read_arg rt [k] = Inr Pkey \<and> read_arg rt [v] = Inr Pvalue"
  then show "read_arg rt (WDictEntry [k, v] # rest) = Inr (PyTuple [Pkey, Pvalue])"
    using read_arg_head [of rt k "[v]"]
    by (subst read_arg.simps) (simp del: read_arg.simps)
qed

theorem read_arg_dict_entry_witness:
  "read_arg sample_runtime [WDictEntry [WInt32 1]] = Inl IllegalDictEntry \<and>
   read_arg sample_runtime [WDictEntry [WUnixFd 3]] = Inl NoException \<and>
   read_arg sample_runtime [WDictEntry [WInt32 1, WBoolean True]]
     = Inr (PyTuple [PyInt 1, PyBool True])"
proof -
  have k: "read_arg sample_runtime [WInt32 1] = Inr (PyInt 1)"
    and v: "read_arg sample_runtime [WBoolean True] = Inr (PyBool True)"
    and f: "read_arg sample_runtime [WUnixFd 3] = Inl NoException"
    by simp_all
  show ?thesis
    using k v f
      read_arg_dict_entry [of sample_runtime "[]" "WInt32 1" "PyInt 1" NoException
        "WBoolean True" "PyBool True"]
      read_arg_dict_entry [of sample_runtime "[]" "WUnixFd 3" "PyInt 1" NoException
        "WBoolean True" "PyBool True"]
    by blast
qed

text \<open>
  The claim as written fails: after the second inner value the decoder does not look
  whether the container holds more, so a dict-entry with three inner values decodes
  into the pair of its first two.
\<close>

theorem read_arg_dict_entry_counterexample:
  "read_arg sample_runtime [WDictEntry [WInt32 1, WInt32 2, WInt32 3]]
     = Inr (PyTuple [PyInt 1, PyInt 2])"
  by simp

section \<open>The empty message\<close>

text \<open>
  Claim C8. Encoding an empty list against the empty format appends nothing and
  succeeds, and a message without arguments decodes to the empty tuple. The validator,
  on the empty signature, does not enter its loop and then compares the local
  \<^verbatim>\<open>end\<close>, which was never assigned, with \<^verbatim>\<open>start\<close>: it accepts the empty signature
  exactly when that indeterminate pointer is at most 255 past \<^verbatim>\<open>start\<close>, and
  \<^verbatim>\<open>set_args\<close> with the empty signature succeeds or fails with "illegal signature"
  accordingly.
\<close>

theorem empty_message:
  "(check_signature u [] 0 0 \<longleftrightarrow> u \<le> 255) \<and>
   (format \<noteq> [] \<longrightarrow> check_signature u format ad sd = check_signature u' format ad sd) \<and>
   append_args rt [] [] [] = Inr [] \<and>
   tdbus_message_set_args rt [] [] (PyTuple []) =
     (if uninit_end rt \<le> 255 then Inr [] else Inl IllegalSignature) \<and>
   tdbus_message_get_args rt [] = Inr (PyTuple [])"
proof -
  have "format \<noteq> [] \<longrightarrow> check_signature u format ad sd = check_signature u' format ad sd"
    using check_signature_from_indep [of format u u 0 ad sd u' u']
    by (simp add: check_signature_def)
  moreover have "check_signature u [] 0 0 \<longleftrightarrow> u \<le> 255"
    by (auto simp: check_signature_def)
  moreover have "tdbus_message_set_args rt [] [] (PyTuple []) =
     (if uninit_end rt \<le> 255 then Inr [] else Inl IllegalSignature)"
    by (auto simp: check_signature_def tdbus_message_set_args_def)
  moreover have "tdbus_message_get_args rt [] = Inr (PyTuple [])"
    by (simp add: tdbus_message_get_args_def)
  ultimately show ?thesis by simp
qed

theorem empty_message_witness:
  "\<not> check_signature 256 [] 0 0 \<and>
   tdbus_message_set_args (sample_runtime\<lparr>uninit_end := 256\<rparr>) [] [] (PyTuple [])
     = Inl IllegalSignature \<and>
   tdbus_message_set_args sample_runtime [] [] (PyTuple []) = Inr [] \<and>
   check_signature 256 ''ai'' 0 0 = check_signature 0 ''ai'' 0 0"
  using empty_message [of 256 "''ai''" 0 0 0 "sample_runtime\<lparr>uninit_end := 256\<rparr>"]
    empty_message [of 0 "''ai''" 0 0 0 sample_runtime]
  by (simp add: sample_runtime_def)

section \<open>Decoding an array of dict-entries\<close>

text \<open>
  \<open>insert_all d kvs\<close> stores the items \<open>kvs\<close> into \<open>d\<close> one after the other;
  \<open>decodes_to_item rt w kv\<close> says the wire item \<open>w\<close> decodes to the pair \<open>kv\<close>, with
  a hashable key. \<open>dict_get d k\<close> looks the key \<open>k\<close> up in \<open>d\<close>.
\<close>

definition insert_all :: "(pyobj \<times> pyobj) list \<Rightarrow> (pyobj \<times> pyobj) list \<Rightarrow> (pyobj \<times> pyobj) list" where
  "insert_all d kvs = foldl (\<lambda>d kv. PyDict_SetItem d (fst kv) (snd kv)) d kvs"

definition decodes_to_item :: "runtime \<Rightarrow> wire \<Rightarrow> pyobj \<times> pyobj \<Rightarrow> bool" where
  "decodes_to_item rt w kv \<longleftrightarrow>
     read_arg rt [w] = Inr (PyTuple [fst kv, snd kv]) \<and> hashable (fst kv)"

definition dict_get :: "(pyobj \<times> pyobj) list \<Rightarrow> pyobj \<Rightarrow> pyobj option" where
  "dict_get d k = map_option snd (find (\<lambda>kv. same_key (fst kv) k) d)"

text \<open>
  The mapping the claim describes, written from its words: the keys in the order of
  their first occurrence, each with the value of its last occurrence. \<open>last_value k v
  kvs\<close> is the value of the last item of \<open>kvs\<close> stored under the key \<open>k\<close>, and \<open>v\<close> if
  there is none.
\<close>

fun last_value :: "pyobj \<Rightarrow> pyobj \<Rightarrow> (pyobj \<times> pyobj) list \<Rightarrow> pyobj" where
  "last_value k v [] = v"
| "last_value k v (kv # kvs) = last_value k (if same_key k (fst kv) then snd kv else v) kvs"

function last_wins :: "(pyobj \<times> pyobj) list \<Rightarrow> (pyobj \<times> pyobj) list" where
  "last_wins [] = []"
| "last_wins (kv # kvs) =
     (fst kv, last_value (fst kv) (snd kv) kvs) #
     last_wins (filter (\<lambda>x. \<not> same_key (fst kv) (fst x)) kvs)"
  by pat_completeness auto
termination
  by (relation "measure length") (auto simp: less_Suc_eq_le)

lemma same_key_examples:
  "same_key (PyFloat 0) (PyFloat 0x8000000000000000)"
  "\<not> same_key (PyFloat 0x7FF8000000000000) (PyFloat 0x7FF8000000000000)"
  "same_key (PyFloat 0x3FF0000000000000) (PyInt 1)"
  "same_key (PyBool True) (PyInt 1)"
  "\<not> same_key (PyFloat 0x3FE0000000000000) (PyInt 0)"
  "same_key (PyFloat 0x7FF0000000000000) (PyFloat 0x7FF0000000000000)"
  "\<not> same_key (PyFloat 0x7FF0000000000000) (PyFloat 0xFFF0000000000000)"
  "same_key (PyStr ''a'') (PyUnicode [97])"
  "\<not> same_key (PyStr [CHR 0xE9]) (PyUnicode [233])"
  "same_key (PyTuple [PyInt 1, PyStr ''a'']) (PyTuple [PyBool True, PyUnicode [97]])"
  by code_simp+

lemma same_key_sym: "same_key a b = same_key b a"
  by (auto simp: same_key_def split: option.splits)

lemma same_key_trans: "same_key a b \<Longrightarrow> same_key a c = same_key b c"
  by (auto simp: same_key_def split: option.splits)

lemma same_key_plain:
  "same_key (PyInt m) (PyInt n) = (m = n)"
  "same_key (PyBool a) (PyBool b) = (a = b)"
  "same_key (PyUnicode u) (PyUnicode u') = (u = u')"
  "same_key (PyStr s) (PyStr s') = (s = s')"
proof -
  show "same_key (PyInt m) (PyInt n) = (m = n)"
    by (auto simp: same_key_def)
  show "same_key (PyBool a) (PyBool b) = (a = b)"
    by (auto simp: same_key_def)
  show "same_key (PyUnicode u) (PyUnicode u') = (u = u')"
    by (auto simp: same_key_def)
  have "map of_char s = (map of_char s' :: nat list) \<longleftrightarrow> s = s'"
    by (rule inj_map_eq_map [OF inj_of_char])
  then show "same_key (PyStr s) (PyStr s') = (s = s')"
    by (auto simp: same_key_def)
qed

lemma distinct_keys_map:
  assumes "\<And>x y. same_key (f x) (f y) = (x = y)"
  shows "distinct_keys (map f xs) = distinct xs"
  by (induction xs) (auto simp: assms)

lemma distinct_keys_plain:
  "distinct_keys (map PyInt ns) = distinct ns"
  "distinct_keys (map PyBool bs) = distinct bs"
  "distinct_keys (map PyUnicode us) = distinct us"
  "distinct_keys (map PyStr ss) = distinct ss"
  by (rule distinct_keys_map, rule same_key_plain)+

lemma dict_get_PyDict_SetItem:
  "dict_get (PyDict_SetItem d k v) k' = (if same_key k k' then Some v else dict_get d k')"
proof (induction d k v rule: PyDict_SetItem.induct)
  case (1 key val)
  then show ?case by (simp add: dict_get_def)
next
  case (2 k0 v0 kvs key val)
  show ?case
  proof (cases "same_key k0 key")
    case True
    then show ?thesis
      using same_key_trans [OF True, of k'] by (simp add: dict_get_def)
  next
    case False
    have "\<not> (same_key k0 k' \<and> same_key key k')"
      using False by (auto simp: same_key_def split: option.splits)
    then show ?thesis
      using False 2 by (auto simp: dict_get_def)
  qed
qed

lemma dict_get_append:
  "dict_get (a @ b) k = (case dict_get a k of Some v \<Rightarrow> Some v | None \<Rightarrow> dict_get b k)"
  by (induction a) (auto simp: dict_get_def)

lemma dict_get_insert_all: "dict_get (insert_all d kvs) k = dict_get (rev kvs @ d) k"
proof (induction kvs arbitrary: d)
  case Nil
  then show ?case by (simp add: insert_all_def)
next
  case (Cons kv kvs)
  have "dict_get (insert_all (PyDict_SetItem d (fst kv) (snd kv)) kvs) k =
        dict_get (rev kvs @ PyDict_SetItem d (fst kv) (snd kv)) k"
    using Cons.IH [of "PyDict_SetItem d (fst kv) (snd kv)"] .
  moreover have "dict_get (kv # d) k = (if same_key (fst kv) k then Some (snd kv) else dict_get d k)"
    "dict_get [kv] k = (if same_key (fst kv) k then Some (snd kv) else None)"
    by (simp_all add: dict_get_def)
  ultimately show ?case
    by (simp add: insert_all_def dict_get_append dict_get_PyDict_SetItem split: option.splits)
qed

lemma last_value_snoc:
  "last_value k v (kvs @ [kv]) = (if same_key k (fst kv) then snd kv else last_value k v kvs)"
  by (induction kvs arbitrary: v) auto

lemma last_wins_snoc:
  "last_wins (kvs @ [kv]) = PyDict_SetItem (last_wins kvs) (fst kv) (snd kv)"
proof (induction kvs rule: last_wins.induct)
  case 1
  then show ?case by simp
next
  case (2 x xs)
  show ?case
  proof (cases "same_key (fst x) (fst kv)")
    case True
    then show ?thesis by (simp add: last_value_snoc)
  next
    case False
    then show ?thesis using 2 by (simp add: last_value_snoc)
  qed
qed

lemma insert_all_snoc:
  "insert_all d (kvs @ [kv]) = PyDict_SetItem (insert_all d kvs) (fst kv) (snd kv)"
  by (simp add: insert_all_def)

lemma insert_all_last_wins: "insert_all [] kvs = last_wins kvs"
proof (induction kvs rule: rev_induct)
  case Nil
  then show ?case by (simp add: insert_all_def)
next
  case (snoc kv kvs)
  then show ?case by (simp only: insert_all_snoc last_wins_snoc)
qed

lemma last_wins_keys: "fst ` set (last_wins kvs) \<subseteq> fst ` set kvs"
proof (induction kvs rule: last_wins.induct)
  case 1
  then show ?case by simp
next
  case (2 kv kvs)
  let ?f = "filter (\<lambda>x. \<not> same_key (fst kv) (fst x)) kvs"
  have "set ?f \<subseteq> set kvs" by (rule filter_is_subset)
  then have "fst ` set ?f \<subseteq> fst ` set kvs" by (rule image_mono)
  with 2 have "fst ` set (last_wins ?f) \<subseteq> fst ` set kvs" by (rule subset_trans)
  then have "insert (fst kv) (fst ` set (last_wins ?f)) \<subseteq> insert (fst kv) (fst ` set kvs)"
    by (rule insert_mono)
  then show ?case by (simp only: last_wins.simps list.set image_insert fst_conv)
qed

lemma last_wins_distinct: "distinct_keys (map fst (last_wins kvs))"
proof (induction kvs rule: last_wins.induct)
  case 1
  then show ?case by simp
next
  case (2 kv kvs)
  let ?f = "filter (\<lambda>x. \<not> same_key (fst kv) (fst x)) kvs"
  have "fst ` set (last_wins ?f) \<subseteq> fst ` set ?f"
    by (rule last_wins_keys)
  moreover have "\<forall>k' \<in> fst ` set ?f. \<not> same_key (fst kv) k'"
    by (simp only: set_filter) blast
  ultimately have "\<forall>k' \<in> fst ` set (last_wins ?f). \<not> same_key (fst kv) k'"
    by blast
  then have "\<forall>k' \<in> set (map fst (last_wins ?f)). \<not> same_key (fst kv) k'"
    by (simp only: set_map)
  with 2 show ?case
    by (simp only: last_wins.simps list.map fst_conv distinct_keys.simps simp_thms)
qed

lemma read_items_dict:
  "list_all2 (decodes_to_item rt) ws kvs \<Longrightarrow>
   read_items rt ws (PyDict d) = Inr (PyDict (insert_all d kvs))"
proof (induction ws kvs arbitrary: d rule: list_all2_induct)
  case Nil
  then show ?case by (simp add: insert_all_def)
next
  case (Cons w ws kv kvs)
  from Cons.hyps(1) have "read_arg rt (w # ws) = Inr (PyTuple [fst kv, snd kv])" "hashable (fst kv)"
    using read_arg_head [of rt w ws] by (simp_all add: decodes_to_item_def del: read_arg.simps)
  then show ?case
    using Cons.IH [of "PyDict_SetItem d (fst kv) (snd kv)"]
    by (simp add: insert_all_def del: read_arg.simps)
qed

lemma read_items_dict_conv:
  "read_items rt ws (PyDict d) = Inr r \<Longrightarrow>
   \<exists>kvs. list_all2 (decodes_to_item rt) ws kvs \<and> r = PyDict (insert_all d kvs)"
proof (induction ws arbitrary: d)
  case Nil
  then show ?case by (simp add: insert_all_def)
next
  case (Cons w ws)
  from Cons.prems obtain k v where
    item: "read_arg rt (w # ws) = Inr (PyTuple [k, v])" and h: "hashable k" and
    rest: "read_items rt ws (PyDict (PyDict_SetItem d k v)) = Inr r"
    by (auto simp del: read_arg.simps split: sum.splits pyobj.splits list.splits if_splits)
  from Cons.IH [OF rest] obtain kvs where
    l: "list_all2 (decodes_to_item rt) ws kvs" and r: "r = PyDict (insert_all (PyDict_SetItem d k v) kvs)"
    by blast
  have "decodes_to_item rt w (k, v)"
    using item h read_arg_head [of rt w ws] by (simp add: decodes_to_item_def del: read_arg.simps)
  then have "list_all2 (decodes_to_item rt) (w # ws) ((k, v) # kvs)"
    using l by simp
  moreover have "r = PyDict (insert_all d ((k, v) # kvs))"
    using r by (simp add: insert_all_def)
  ultimately show ?case by blast
qed

text \<open>
  Claim C10. An array of dict-entries decodes to a dictionary exactly when every entry
  decodes to a pair with a hashable key, whether or not keys repeat; the dictionary is
  then the result of storing the pairs in wire order. It holds the keys in the order
  of their first occurrence on the wire, each once and with the value of its last
  occurrence, and looking a key up in it gives the value of the last entry on the
  wire with that key. Keys are the same when Python takes them for the same: \<^verbatim>\<open>0.0\<close> and \<^verbatim>\<open>-0.0\<close>
  are one key, and a NaN is a key of its own at each occurrence.
\<close>

theorem read_arg_dict_last_wins:
  assumes "element_type csig = CHR ''{''"
  shows "(list_all2 (decodes_to_item rt) ws kvs \<longrightarrow>
            read_arg rt (WArray csig ws # rest) = Inr (PyDict (insert_all [] kvs))) \<and>
         (read_arg rt (WArray csig ws # rest) = Inr r \<longrightarrow>
            (\<exists>kvs'. list_all2 (decodes_to_item rt) ws kvs' \<and> r = PyDict (insert_all [] kvs'))) \<and>
         insert_all [] kvs = last_wins kvs \<and>
         distinct_keys (map fst (insert_all [] kvs)) \<and>
         dict_get (insert_all [] kvs) k = dict_get (rev kvs) k"
proof -
  have a: "read_arg rt (WArray csig ws # rest) = read_items rt ws (PyDict [])"
    using assms by simp
  have "list_all2 (decodes_to_item rt) ws kvs \<longrightarrow>
        read_arg rt (WArray csig ws # rest) = Inr (PyDict (insert_all [] kvs))"
    using a read_items_dict [of rt ws kvs "[]"] by simp
  moreover have "read_arg rt (WArray csig ws # rest) = Inr r \<longrightarrow>
        (\<exists>kvs'. list_all2 (decodes_to_item rt) ws kvs' \<and> r = PyDict (insert_all [] kvs'))"
    using a read_items_dict_conv [of rt ws "[]" r] by simp
  moreover have "insert_all [] kvs = last_wins kvs"
    by (rule insert_all_last_wins)
  moreover have "distinct_keys (map fst (insert_all [] kvs))"
    using last_wins_distinct [of kvs] by (simp only: insert_all_last_wins)
  moreover have "dict_get (insert_all [] kvs) k = dict_get (rev kvs) k"
    using dict_get_insert_all [of "[]" kvs k] by simp
  ultimately show ?thesis by blast
qed

theorem read_arg_dict_last_wins_witness:
  "read_arg sample_runtime
     [WArray ''{si}'' [WDictEntry [WString ''a'', WInt32 1], WDictEntry [WString ''b'', WInt32 5],
                       WDictEntry [WString ''a'', WInt32 2]]]
   = Inr (PyDict [(PyUnicode [97], PyInt 2), (PyUnicode [98], PyInt 5)]) \<and>
   dict_get [(PyUnicode [97], PyInt 2), (PyUnicode [98], PyInt 5)] (PyUnicode [97]) = Some (PyInt 2) \<and>
   read_arg sample_runtime
     [WArray ''{di}'' [WDictEntry [WDouble 0, WInt32 1],
                       WDictEntry [WDouble 0x8000000000000000, WInt32 2]]]
   = Inr (PyDict [(PyFloat 0, PyInt 2)]) \<and>
   read_arg sample_runtime
     [WArray ''{di}'' [WDictEntry [WDouble 0x7FF8000000000000, WInt32 1],
                       WDictEntry [WDouble 0x7FF8000000000000, WInt32 2]]]
   = Inr (PyDict [(PyFloat 0x7FF8000000000000, PyInt 1), (PyFloat 0x7FF8000000000000, PyInt 2)])"
proof -
  let ?ws = "[WDictEntry [WString ''a'', WInt32 1], WDictEntry [WString ''b'', WInt32 5],
              WDictEntry [WString ''a'', WInt32 2]]"
  let ?kvs = "[(PyUnicode [97], PyInt 1), (PyUnicode [98], PyInt 5), (PyUnicode [97], PyInt 2)]"
  let ?zs = "[WDictEntry [WDouble 0, WInt32 1], WDictEntry [WDouble 0x8000000000000000, WInt32 2]]"
  let ?kzs = "[(PyFloat 0, PyInt 1), (PyFloat 0x8000000000000000, PyInt 2)]"
  let ?ns = "[WDictEntry [WDouble 0x7FF8000000000000, WInt32 1],
              WDictEntry [WDouble 0x7FF8000000000000, WInt32 2]]"
  let ?kns = "[(PyFloat 0x7FF8000000000000, PyInt 1), (PyFloat 0x7FF8000000000000, PyInt 2)]"
  have e: "element_type ''{si}'' = CHR ''{''" "element_type ''{di}'' = CHR ''{''"
    by (simp_all add: element_type_def)
  have "decodes_to_item sample_runtime (WDictEntry [WString ''a'', WInt32 1]) (PyUnicode [97], PyInt 1)"
    "decodes_to_item sample_runtime (WDictEntry [WString ''b'', WInt32 5]) (PyUnicode [98], PyInt 5)"
    "decodes_to_item sample_runtime (WDictEntry [WString ''a'', WInt32 2]) (PyUnicode [97], PyInt 2)"
    by (simp_all add: decodes_to_item_def sample_runtime_def cstr_def)
  then have l: "list_all2 (decodes_to_item sample_runtime) ?ws ?kvs" by simp
  have lz: "list_all2 (decodes_to_item sample_runtime) ?zs ?kzs"
    by (simp add: decodes_to_item_def)
  have ln: "list_all2 (decodes_to_item sample_runtime) ?ns ?kns"
    by (simp add: decodes_to_item_def)
  have i: "last_wins ?kvs = [(PyUnicode [97], PyInt 2), (PyUnicode [98], PyInt 5)]"
    by code_simp
  have iz: "last_wins ?kzs = [(PyFloat 0, PyInt 2)]"
    by code_simp
  have n: "last_wins ?kns = ?kns"
    by code_simp
  have g: "dict_get [(PyUnicode [97], PyInt 2), (PyUnicode [98], PyInt 5)] (PyUnicode [97]) = Some (PyInt 2)"
    by code_simp
  have "read_arg sample_runtime [WArray ''{si}'' ?ws] = Inr (PyDict (last_wins ?kvs))"
    using read_arg_dict_last_wins [OF e(1), of sample_runtime ?ws ?kvs "[]"] l by simp
  moreover have "read_arg sample_runtime [WArray ''{di}'' ?zs] = Inr (PyDict (last_wins ?kzs))"
    using read_arg_dict_last_wins [OF e(2), of sample_runtime ?zs ?kzs "[]"] lz by simp
  moreover have "read_arg sample_runtime [WArray ''{di}'' ?ns] = Inr (PyDict (last_wins ?kns))"
    using read_arg_dict_last_wins [OF e(2), of sample_runtime ?ns ?kns "[]"] ln by simp
  ultimately show ?thesis
    unfolding i iz n using g by simp
qed

section \<open>Round trip\<close>













































end
